theory Spec2Isabelle
  imports Complex_Main
begin

section \<open>Python strings and integers\<close>

text \<open>
  Strings are modelled as \<^typ>\<open>string\<close> over the ASCII range; Python's unbounded
  \<open>int\<close> is \<^typ>\<open>int\<close>, and \<open>//\<close> is floor division, which is what \<open>div\<close>
  on \<^typ>\<open>int\<close> computes.
\<close>

text \<open>The character of a decimal digit \<open>d < 10\<close>.\<close>

definition digit_char :: "nat \<Rightarrow> char" where
  "digit_char d = ''0123456789'' ! d"

text \<open>\<open>str(n)\<close> for a non-negative integer: its decimal digits.\<close>

fun str_nat :: "nat \<Rightarrow> string" where
  "str_nat n = (if n < 10 then [digit_char n] else str_nat (n div 10) @ [digit_char (n mod 10)])"

declare str_nat.simps [simp del]

text \<open>\<open>str(i)\<close> as an f-string \<open>{i}\<close> formats it: a minus sign, then the digits.\<close>

definition str_int :: "int \<Rightarrow> string" where
  "str_int i = (if i < 0 then CHR ''-'' # str_nat (nat (- i)) else str_nat (nat i))"

section \<open>FormFieldTracker\<close>

record form_field_tracker =
  filled_fields :: "string \<rightharpoonup> string"
  field_attempts :: "string \<rightharpoonup> int"
  filled_positions :: "int set"
  content_created :: bool
  choice_made :: bool
  in_creation_flow :: bool

text \<open>\<open>FormFieldTracker.__init__\<close>\<close>

definition new_tracker :: form_field_tracker where
  "new_tracker = \<lparr> filled_fields = Map.empty, field_attempts = Map.empty,
     filled_positions = {}, content_created = False, choice_made = False,
     in_creation_flow = False \<rparr>"

text \<open>\<open>f"{field_id}|{purpose}|{position_y//100}"\<close>\<close>

definition create_field_key :: "string \<Rightarrow> string \<Rightarrow> int \<Rightarrow> string" where
  "create_field_key field_id purpose position_y =
     field_id @ ''|'' @ purpose @ ''|'' @ str_int (position_y div 100)"

definition mark_filled :: "form_field_tracker \<Rightarrow> string \<Rightarrow> string \<Rightarrow> string \<Rightarrow> int \<Rightarrow> form_field_tracker" where
  "mark_filled t field_id purpose val position_y =
     (let field_key = create_field_key field_id purpose position_y in
      t \<lparr> filled_fields := (filled_fields t)(field_key \<mapsto> val),
          field_attempts := (field_attempts t)(field_key \<mapsto>
             (case field_attempts t field_key of None \<Rightarrow> 0 | Some c \<Rightarrow> c) + 1),
          filled_positions := insert (position_y div 100) (filled_positions t) \<rparr>)"

definition is_filled :: "form_field_tracker \<Rightarrow> string \<Rightarrow> string \<Rightarrow> int \<Rightarrow> bool" where
  "is_filled t field_id purpose position_y =
     (filled_fields t (create_field_key field_id purpose position_y) \<noteq> None)"

definition get_attempts :: "form_field_tracker \<Rightarrow> string \<Rightarrow> string \<Rightarrow> int \<Rightarrow> int" where
  "get_attempts t field_id purpose position_y =
     (case field_attempts t (create_field_key field_id purpose position_y) of
        None \<Rightarrow> 0 | Some c \<Rightarrow> c)"

definition reset :: "form_field_tracker \<Rightarrow> form_field_tracker" where
  "reset t = t \<lparr> filled_fields := Map.empty, field_attempts := Map.empty,
     filled_positions := {}, content_created := False, choice_made := False,
     in_creation_flow := False \<rparr>"

text \<open>A run of further \<open>mark_filled\<close> calls, each with its own
  \<open>(field_id, purpose, value, position_y)\<close>.\<close>

fun mark_filled_calls :: "form_field_tracker \<Rightarrow> (string \<times> string \<times> string \<times> int) list \<Rightarrow> form_field_tracker" where
  "mark_filled_calls t [] = t"
| "mark_filled_calls t ((f, p, v, y) # cs) = mark_filled_calls (mark_filled t f p v y) cs"

text \<open>Following the spec's words for the key's third component: the vertical position
  rounded to the nearest multiple of 100 pixels.\<close>

definition nearest_100 :: "int \<Rightarrow> int" where
  "nearest_100 y = ((y + 50) div 100) * 100"

section \<open>String operations of the source\<close>

text \<open>\<open>str.lower()\<close> on ASCII text.\<close>

definition lower_char :: "char \<Rightarrow> char" where
  "lower_char c =
     (case map_of (zip ''ABCDEFGHIJKLMNOPQRSTUVWXYZ'' ''abcdefghijklmnopqrstuvwxyz'') c of
        None \<Rightarrow> c
      | Some l \<Rightarrow> l)"

definition lower :: "string \<Rightarrow> string" where
  "lower s = map lower_char s"

fun starts_with :: "string \<Rightarrow> string \<Rightarrow> bool" where
  "starts_with [] s = True"
| "starts_with (a # as) [] = False"
| "starts_with (a # as) (b # bs) = (a = b \<and> starts_with as bs)"

text \<open>\<open>sub in s\<close>: \<open>sub\<close> occurs in \<open>s\<close> as a contiguous substring.\<close>

fun str_in :: "string \<Rightarrow> string \<Rightarrow> bool" where
  "str_in sub [] = (sub = [])"
| "str_in sub (c # cs) = (starts_with sub (c # cs) \<or> str_in sub cs)"

text \<open>\<open>str.isspace()\<close> for one ASCII character: tab to carriage return, the four
  separators \<open>0x1c\<close> to \<open>0x1f\<close>, and the space.\<close>

definition is_space :: "char \<Rightarrow> bool" where
  "is_space c = (let n = (of_char c :: nat) in (9 \<le> n \<and> n \<le> 13) \<or> (28 \<le> n \<and> n \<le> 32))"

text \<open>\<open>str.split()\<close> without arguments: the maximal runs of non-whitespace characters.
  The second argument is the word being read.\<close>

fun split_from :: "string \<Rightarrow> string \<Rightarrow> string list" where
  "split_from [] cur = (if cur = [] then [] else [cur])"
| "split_from (c # cs) cur =
     (if is_space c then (if cur = [] then split_from cs [] else cur # split_from cs [])
      else split_from cs (cur @ [c]))"

definition split :: "string \<Rightarrow> string list" where
  "split s = split_from s []"

text \<open>\<open>str.strip()\<close>\<close>

definition strip :: "string \<Rightarrow> string" where
  "strip s = rev (dropWhile is_space (rev (dropWhile is_space s)))"

text \<open>\<open>s.count('/')\<close> for a one-character argument.\<close>

definition count_char :: "char \<Rightarrow> string \<Rightarrow> int" where
  "count_char c s = int (length (filter (\<lambda>x. x = c) s))"

text \<open>\<open>'{s}'\<close> inside an f-string: \<open>s\<close> between two single quotes.\<close>

definition quoted :: "string \<Rightarrow> string" where
  "quoted s = CHR 0x27 # s @ [CHR 0x27]"

text \<open>\<open>any(w in s for w in ws)\<close>\<close>

definition any_in :: "string list \<Rightarrow> string \<Rightarrow> bool" where
  "any_in ws s = list_ex (\<lambda>w. str_in w s) ws"

text \<open>An exception, with \<open>str(e)\<close>.\<close>

datatype error = Exception string

fun str_of_error :: "error \<Rightarrow> string" where
  "str_of_error (Exception m) = m"

section \<open>ActionPlan and the Action Executor\<close>

text \<open>
  The plan is the dictionary parsed from the planner's JSON. \<open>analyze_and_plan\<close>
  always sets \<open>action\<close>, \<open>wait_after\<close>, \<open>confidence\<close>, \<open>is_complete\<close> and
  \<open>target_y_position\<close>; the other keys may be absent (\<open>None\<close>), and every reader
  supplies its own default through \<open>.get(key, default)\<close>. The confidence is compared
  with \<open>0.7\<close> only, and is kept as a rational.

  Nothing validates the parsed JSON, so the key \<open>target\<close> can be absent, hold a string,
  or hold \<open>null\<close> (standing here for every value that is not a string), which Python
  reads as \<open>None\<close>.
\<close>

datatype json_text = Missing | Null | Text string

record action_plan =
  action :: string
  target :: json_text
  selector_type :: "string option"
  plan_value :: "string option"
  field_purpose :: "string option"
  target_y_position :: int
  wait_after :: int
  is_complete :: bool
  confidence :: rat
  reasoning :: "string option"

text \<open>\<open>d.get(key, default)\<close>\<close>

definition get_or :: "'a option \<Rightarrow> 'a \<Rightarrow> 'a" where
  "get_or v d = (case v of None \<Rightarrow> d | Some x \<Rightarrow> x)"

text \<open>\<open>action_plan.get('target', '')\<close>: a string, or \<open>None\<close> for a \<open>null\<close>.\<close>

definition target_get :: "action_plan \<Rightarrow> string option" where
  "target_get p = (case target p of Missing \<Rightarrow> Some [] | Null \<Rightarrow> None | Text s \<Rightarrow> Some s)"

text \<open>\<open>{action_plan.get('target', '')}\<close> inside an f-string.\<close>

definition target_format :: "action_plan \<Rightarrow> string" where
  "target_format p = (case target p of Missing \<Rightarrow> [] | Null \<Rightarrow> ''None'' | Text s \<Rightarrow> s)"

text \<open>What a string method called on \<open>None\<close> raises.\<close>

definition none_has_no :: "string \<Rightarrow> error" where
  "none_has_no method =
     Exception (quoted ''NoneType'' @ '' object has no attribute '' @ quoted method)"

text \<open>
  The operations \<open>execute_action\<close> delegates to: the keyboard and the timed wait of the
  browser page, and the three resolvers. Each either returns or raises.
\<close>

record driver =
  keyboard_press :: "string \<Rightarrow> error + unit"
  wait_for_timeout :: "int \<Rightarrow> error + unit"
  smart_click_op :: "string \<Rightarrow> string \<Rightarrow> error + (bool \<times> string)"
  type_contenteditable_op :: "string \<Rightarrow> string \<Rightarrow> int \<Rightarrow> error + (bool \<times> string)"
  smart_type_op :: "string \<Rightarrow> string \<Rightarrow> string \<Rightarrow> int \<Rightarrow> error + (bool \<times> string)"

text \<open>The \<open>press_key\<close> branch, with its own \<open>try\<close>/\<open>except\<close>.\<close>

definition press_key_action :: "driver \<Rightarrow> string \<Rightarrow> bool \<times> string" where
  "press_key_action d key =
     (case keyboard_press d key of
        Inl e \<Rightarrow> (False, ''Key press error: '' @ str_of_error e)
      | Inr _ \<Rightarrow>
          (case wait_for_timeout d 800 of
             Inl e \<Rightarrow> (False, ''Key press error: '' @ str_of_error e)
           | Inr _ \<Rightarrow> (True, ''Pressed key: '' @ key)))"

text \<open>The \<open>click\<close> / \<open>navigate\<close> branch.\<close>

definition click_action :: "driver \<Rightarrow> action_plan \<Rightarrow> string \<Rightarrow> form_field_tracker \<Rightarrow>
    error + ((bool \<times> string) \<times> form_field_tracker)" where
  "click_action d p tgt t =
     (case smart_click_op d tgt (get_or (selector_type p) ''text'') of
        Inl e \<Rightarrow> Inl e
      | Inr (success, msg) \<Rightarrow>
          if success \<and> any_in [''create'', ''new'', ''add'', ''repository'', ''project'', ''issue''] (lower tgt)
          then Inr ((success, msg), reset t)
          else Inr ((success, msg), t))"

text \<open>The \<open>type_contenteditable\<close> branch.\<close>

definition type_contenteditable_action :: "driver \<Rightarrow> action_plan \<Rightarrow> string \<Rightarrow> form_field_tracker \<Rightarrow>
    error + ((bool \<times> string) \<times> form_field_tracker)" where
  "type_contenteditable_action d p tgt t =
     (let val = get_or (plan_value p) '''';
          purpose = get_or (field_purpose p) ''other'';
          target_y = target_y_position p;
          field_id = tgt
      in if is_filled t field_id purpose target_y then Inr ((True, ''Skipped (already filled)''), t)
         else if 2 \<le> get_attempts t field_id purpose target_y
           then Inr ((True, ''Skipped (too many attempts)''), t)
         else (case type_contenteditable_op d tgt val target_y of
                 Inl e \<Rightarrow> Inl e
               | Inr (success, msg) \<Rightarrow>
                   if success
                   then Inr ((success, msg),
                     (let t1 = mark_filled t field_id purpose val target_y
                      in if purpose \<in> set [''title'', ''body'', ''content'']
                         then t1 \<lparr> content_created := True \<rparr> else t1))
                   else Inr ((success, msg), t)))"

text \<open>The \<open>type\<close> branch.\<close>

definition type_action :: "driver \<Rightarrow> action_plan \<Rightarrow> string \<Rightarrow> form_field_tracker \<Rightarrow>
    error + ((bool \<times> string) \<times> form_field_tracker)" where
  "type_action d p tgt t =
     (let val = get_or (plan_value p) '''';
          purpose = get_or (field_purpose p) ''other'';
          target_y = target_y_position p;
          sel = get_or (selector_type p) ''placeholder'';
          field_id = tgt
      in if is_filled t field_id purpose target_y then Inr ((True, ''Skipped (already filled)''), t)
         else if 2 \<le> get_attempts t field_id purpose target_y
           then Inr ((True, ''Skipped (too many attempts)''), t)
         else (case smart_type_op d tgt val sel target_y of
                 Inl e \<Rightarrow> Inl e
               | Inr (success, msg) \<Rightarrow>
                   if success
                   then Inr ((success, msg), mark_filled t field_id purpose val target_y)
                   else Inr ((success, msg), t)))"

text \<open>
  The body of the outer \<open>try\<close> of \<open>execute_action\<close>, for the stripped target computed
  before it: \<open>Inl\<close> is an exception leaving the body. No branch changes the tracker
  before an operation that may raise, so the tracker at the \<open>except\<close> is the one passed
  in.
\<close>

definition execute_action_body :: "driver \<Rightarrow> action_plan \<Rightarrow> string \<Rightarrow> form_field_tracker \<Rightarrow>
    error + ((bool \<times> string) \<times> form_field_tracker)" where
  "execute_action_body d p tgt t =
     (let act = action p
      in if act = ''complete'' then Inr ((True, ''Task marked as complete''), t)
         else if act = ''press_key''
           then Inr (press_key_action d (if tgt \<noteq> [] then tgt else get_or (plan_value p) ''Enter''), t)
         else if act \<in> set [''click'', ''navigate''] then click_action d p tgt t
         else if act = ''type_contenteditable'' then type_contenteditable_action d p tgt t
         else if act = ''type'' then type_action d p tgt t
         else if act = ''wait''
           then (case wait_for_timeout d (wait_after p) of
                   Inl e \<Rightarrow> Inl e
                 | Inr _ \<Rightarrow> Inr ((True, ''Waited '' @ str_int (wait_after p) @ ''ms''), t))
         else Inr ((False, ''Unknown action: '' @ act), t))"

text \<open>
  \<open>execute_action\<close>. The two statements before the \<open>try\<close> read the action and strip
  the target; \<open>.strip()\<close> on \<open>None\<close> raises, and that exception leaves
  \<open>execute_action\<close> (\<open>Inl\<close>). The body runs under \<open>except Exception as e\<close>.
\<close>

definition execute_action :: "driver \<Rightarrow> action_plan \<Rightarrow> form_field_tracker \<Rightarrow>
    error + ((bool \<times> string) \<times> form_field_tracker)" where
  "execute_action d p t =
     (case target_get p of
        None \<Rightarrow> Inl (none_has_no ''strip'')
      | Some raw \<Rightarrow>
          (case execute_action_body d p (strip raw) t of
             Inl e \<Rightarrow> Inr ((False, ''Error: '' @ str_of_error e), t)
           | Inr r \<Rightarrow> Inr r))"

text \<open>A sequence of executor calls on one tracker, each with the driver's behaviour at
  that call and the plan it is given; a call that raises leaves the tracker as it was.\<close>

fun execute_actions :: "form_field_tracker \<Rightarrow> (driver \<times> action_plan) list \<Rightarrow> form_field_tracker" where
  "execute_actions t [] = t"
| "execute_actions t ((d, p) # rest) =
     execute_actions (case execute_action d p t of Inl _ \<Rightarrow> t | Inr r \<Rightarrow> snd r) rest"

text \<open>The tracker's two maps agree: a key has an attempt count exactly when it is
  filled, and the count is then 1.\<close>

definition attempts_match :: "form_field_tracker \<Rightarrow> bool" where
  "attempts_match t = (\<forall>k. field_attempts t k = (if filled_fields t k = None then None else Some 1))"

section \<open>UIState, TaskWorkflow and the step loop of \<open>execute_task\<close>\<close>

record ui_state =
  step_number :: int
  description :: string
  screenshot_path :: string
  url :: string
  timestamp :: string
  actions_taken :: "string list"

record task_workflow =
  task_description :: string
  app_name :: string
  app_url :: string
  states :: "ui_state list"
  total_steps :: int
  completion_status :: string

text \<open>
  What the surroundings deliver during one step of the loop: the screenshot (the call may
  raise, and nothing in \<open>execute_task\<close> catches it), \<open>page.url\<close> when the early
  completion check reads it and when the UIState is built, the planner's plan, the clock,
  and the behaviour of the driver during this step.
\<close>

record step_env =
  capture_screenshot :: "error + string"
  current_url :: string
  planned :: action_plan
  url_at_record :: string
  now_isoformat :: string
  step_driver :: driver

text \<open>The local variables of the loop, with the agent's field tracker.\<close>

record loop_state =
  workflow :: task_workflow
  actions_log :: "string list"
  consecutive_failures :: int
  same_action_count :: int
  last_action_signature :: string
  creation_completed :: bool
  field_tracker :: form_field_tracker

text \<open>How an iteration ends: it falls through to the next one, leaves the loop by
  \<open>break\<close>, or raises.\<close>

datatype step_result =
    is_Continue: Continue (state_of: loop_state)
  | is_Break: Break (state_of: loop_state)
  | Raise error

text \<open>\<open>f"{action_plan['action']}|{action_plan.get('target', '')}|{action_plan.get('value', '')}"\<close>\<close>

definition action_signature :: "action_plan \<Rightarrow> string" where
  "action_signature p = action p @ ''|'' @ target_format p @ ''|'' @ get_or (plan_value p) ''''"

text \<open>The URL test of the early completion check.\<close>

definition url_indicates_success :: "string \<Rightarrow> string \<Rightarrow> string \<Rightarrow> bool" where
  "url_indicates_success task cur initial_url =
     (let task_lower = lower task
      in if str_in ''project'' task_lower
           then str_in ''/projects/'' cur \<and> \<not> str_in ''/new'' cur \<and> cur \<noteq> initial_url
         else if str_in ''repository'' task_lower \<or> str_in ''repo'' task_lower
           then 4 \<le> count_char CHR ''/'' cur \<and> \<not> str_in ''/new'' cur
         else if str_in ''issue'' task_lower
           then str_in ''/issues/'' cur \<and> 5 \<le> count_char CHR ''/'' cur
         else False)"

text \<open>The check mark and the ballot cross of the action summary, in UTF-8.\<close>

definition check_mark :: string where
  "check_mark = [CHR 0xE2, CHR 0x9C, CHR 0x93]"

definition ballot_x :: string where
  "ballot_x = [CHR 0xE2, CHR 0x9C, CHR 0x97]"

definition action_summary :: "nat \<Rightarrow> action_plan \<Rightarrow> bool \<Rightarrow> string" where
  "action_summary step p success =
     ''Step '' @ str_int (int step) @ '': '' @ action p
       @ (case target p of
            Text s \<Rightarrow> if s \<noteq> [] then '' - '' @ take 50 s else []
          | _ \<Rightarrow> [])
       @ '' -> '' @ (if success then check_mark else ballot_x)"

definition set_status :: "string \<Rightarrow> nat \<Rightarrow> loop_state \<Rightarrow> loop_state" where
  "set_status status step st =
     st \<lparr> workflow := (workflow st) \<lparr> completion_status := status, total_steps := int step \<rparr> \<rparr>"

text \<open>
  The early completion check, consulted when the latch \<open>creation_completed\<close> is set:
  the two-second wait may raise; otherwise the result says whether the URL shows the
  created entity.
\<close>

definition early_completion :: "step_env \<Rightarrow> string \<Rightarrow> string \<Rightarrow> loop_state \<Rightarrow> error + bool" where
  "early_completion e task initial_url st =
     (if creation_completed st
      then (case wait_for_timeout (step_driver e) 2000 of
              Inl err \<Rightarrow> Inl err
            | Inr _ \<Rightarrow> Inr (url_indicates_success task (current_url e) initial_url))
      else Inr False)"

text \<open>
  From the recording of the UIState to the end of the iteration: the state is appended and
  the action executed, an exception of \<open>execute_action\<close> leaving the loop uncaught; then
  the latch and the failure counter are updated, the plan's wait applied, and the two
  closing checks made in the source's order. \<open>.lower()\<close> on the target raises on \<open>None\<close>
  as \<open>.strip()\<close> did inside \<open>execute_action\<close>.
\<close>

definition record_and_execute :: "step_env \<Rightarrow> nat \<Rightarrow> string \<Rightarrow> loop_state \<Rightarrow> step_result" where
  "record_and_execute e step screenshot st =
     (let p = planned e;
          ui = \<lparr> step_number = int step,
                 description = get_or (reasoning p) ''Unknown'',
                 screenshot_path = screenshot,
                 url = url_at_record e,
                 timestamp = now_isoformat e,
                 actions_taken = actions_log st \<rparr>;
          st1 = st \<lparr> workflow := (workflow st) \<lparr> states := states (workflow st) @ [ui] \<rparr> \<rparr>
      in case execute_action (step_driver e) p (field_tracker st1) of
           Inl err \<Rightarrow> Raise err
         | Inr r \<Rightarrow>
             (case target_get p of
                None \<Rightarrow> Raise (none_has_no ''lower'')
              | Some raw \<Rightarrow>
                  (let success = fst (fst r);
                       st2 = st1 \<lparr> field_tracker := snd r \<rparr>;
                       is_final_submit =
                         any_in [''create repository'', ''create project'', ''create issue'',
                                 ''submit new issue'', ''create pull request'', ''publish'']
                           (lower raw);
                       st3 = (if success \<and> is_final_submit
                              then st2 \<lparr> creation_completed := True \<rparr> else st2);
                       st4 = st3 \<lparr> actions_log := actions_log st3 @ [action_summary step p success] \<rparr>;
                       st5 = (if success then st4 \<lparr> consecutive_failures := 0 \<rparr>
                              else st4 \<lparr> consecutive_failures := consecutive_failures st4 + 1 \<rparr>)
                   in case wait_for_timeout (step_driver e) (wait_after p) of
                        Inl err \<Rightarrow> Raise err
                      | Inr _ \<Rightarrow>
                          if is_complete p \<and> 0.7 < confidence p
                            then Break (set_status ''completed'' step st5)
                          else if 4 \<le> consecutive_failures st5
                            then Break (set_status ''failed_too_many_errors'' step st5)
                          else Continue st5)))"

text \<open>The repetition guard and what follows it.\<close>

definition repetition_guard :: "step_env \<Rightarrow> nat \<Rightarrow> string \<Rightarrow> loop_state \<Rightarrow> step_result" where
  "repetition_guard e step screenshot st =
     (let sig = action_signature (planned e)
      in if sig = last_action_signature st
         then (let st1 = st \<lparr> same_action_count := same_action_count st + 1 \<rparr>
               in if 3 \<le> same_action_count st1
                  then Break (set_status ''failed_infinite_loop'' step st1)
                  else record_and_execute e step screenshot (st1 \<lparr> last_action_signature := sig \<rparr>))
         else record_and_execute e step screenshot
                (st \<lparr> same_action_count := 0, last_action_signature := sig \<rparr>))"

text \<open>One iteration of \<open>for step in range(1, max_steps + 1)\<close>.\<close>

definition loop_body :: "step_env \<Rightarrow> string \<Rightarrow> string \<Rightarrow> nat \<Rightarrow> loop_state \<Rightarrow> step_result" where
  "loop_body e task initial_url step st =
     (case capture_screenshot e of
        Inl err \<Rightarrow> Raise err
      | Inr screenshot \<Rightarrow>
          (case early_completion e task initial_url st of
             Inl err \<Rightarrow> Raise err
           | Inr True \<Rightarrow> Break (set_status ''completed'' step st)
           | Inr False \<Rightarrow> repetition_guard e step screenshot st))"

text \<open>The loop: \<open>n\<close> iterations are left and the next one is number \<open>step\<close>.\<close>

fun run_steps :: "(nat \<Rightarrow> step_env) \<Rightarrow> string \<Rightarrow> string \<Rightarrow> nat \<Rightarrow> nat \<Rightarrow> loop_state \<Rightarrow> error + loop_state" where
  "run_steps env task initial_url 0 step st = Inr st"
| "run_steps env task initial_url (Suc n) step st =
     (case loop_body (env step) task initial_url step st of
        Continue st' \<Rightarrow> run_steps env task initial_url n (Suc step) st'
      | Break st' \<Rightarrow> Inr st'
      | Raise err \<Rightarrow> Inl err)"

text \<open>The state in which step \<open>step + n\<close> begins when the loop is in \<open>st\<close> at the beginning
  of step \<open>step\<close>, if none of the \<open>n\<close> iterations in between leaves the loop.\<close>

fun state_after :: "(nat \<Rightarrow> step_env) \<Rightarrow> string \<Rightarrow> string \<Rightarrow> nat \<Rightarrow> nat \<Rightarrow> loop_state \<Rightarrow> loop_state option" where
  "state_after env task initial_url 0 step st = Some st"
| "state_after env task initial_url (Suc n) step st =
     (case loop_body (env step) task initial_url step st of
        Continue st' \<Rightarrow> state_after env task initial_url n (Suc step) st'
      | Break st' \<Rightarrow> None
      | Raise err \<Rightarrow> None)"

text \<open>
  What \<open>execute_task\<close> meets before the loop: \<open>page.url\<close> after the navigation attempt
  (whose own failure is caught), the outcome of \<open>wait_for_login\<close>, and \<open>page.url\<close>
  when \<open>initial_url\<close> is read.
\<close>

record task_env =
  url_after_goto :: string
  wait_for_login :: "error + bool"
  initial_page_url :: string

definition initial_loop_state :: "string \<Rightarrow> string \<Rightarrow> string \<Rightarrow> form_field_tracker \<Rightarrow> loop_state" where
  "initial_loop_state task url_arg name t =
     \<lparr> workflow = \<lparr> task_description = task, app_name = name, app_url = url_arg, states = [],
                     total_steps = 0, completion_status = ''in_progress'' \<rparr>,
       actions_log = [], consecutive_failures = 0, same_action_count = 0,
       last_action_signature = '''', creation_completed = False, field_tracker = t \<rparr>"

text \<open>The statements after the loop.\<close>

definition finish :: "int \<Rightarrow> task_workflow \<Rightarrow> task_workflow" where
  "finish max_steps w =
     (if completion_status w = ''in_progress''
      then w \<lparr> completion_status := ''max_steps_reached'', total_steps := max_steps \<rparr>
      else w)"

definition login_gate :: "task_env \<Rightarrow> error + unit" where
  "login_gate te =
     (if any_in [''login'', ''signin'', ''auth'', ''sessions/verified''] (lower (url_after_goto te))
      then (case wait_for_login te of
              Inl err \<Rightarrow> Inl err
            | Inr ok \<Rightarrow> if ok then Inr () else Inl (Exception ''Login failed or timeout''))
      else Inr ())"

definition execute_task :: "task_env \<Rightarrow> (nat \<Rightarrow> step_env) \<Rightarrow> form_field_tracker \<Rightarrow>
    string \<Rightarrow> string \<Rightarrow> string \<Rightarrow> int \<Rightarrow> error + task_workflow" where
  "execute_task te env t task url_arg name max_steps =
     (case login_gate te of
        Inl err \<Rightarrow> Inl err
      | Inr _ \<Rightarrow>
          (case run_steps env task (initial_page_url te) (nat max_steps) 1
                  (initial_loop_state task url_arg name t) of
             Inl err \<Rightarrow> Inl err
           | Inr st \<Rightarrow> Inr (finish max_steps (workflow st))))"

section \<open>Notions used in the statements about the loop\<close>

text \<open>Whether the action executed in this step reports success.\<close>

definition action_succeeds :: "step_env \<Rightarrow> loop_state \<Rightarrow> bool" where
  "action_succeeds e st =
     (case execute_action (step_driver e) (planned e) (field_tracker st) of
        Inl _ \<Rightarrow> False
      | Inr r \<Rightarrow> fst (fst r))"

text \<open>The plan reports completion with a confidence above the threshold.\<close>

definition self_reported :: "action_plan \<Rightarrow> bool" where
  "self_reported p = (is_complete p \<and> 0.7 < confidence p)"

text \<open>What holds whenever an iteration begins: the run is in progress, one UIState has
  been recorded per earlier step, and both counters are below their limits.\<close>

definition loop_inv :: "nat \<Rightarrow> loop_state \<Rightarrow> bool" where
  "loop_inv step st =
     (completion_status (workflow st) = ''in_progress''
      \<and> Suc (length (states (workflow st))) = step
      \<and> 0 \<le> same_action_count st \<and> same_action_count st < 3
      \<and> 0 \<le> consecutive_failures st \<and> consecutive_failures st < 4)"

text \<open>How the recorded states relate to \<open>total_steps\<close> when the loop is left by a
  \<open>break\<close>.\<close>

definition break_shape :: "loop_state \<Rightarrow> bool" where
  "break_shape st =
     (let w = workflow st; n = int (length (states w))
      in (completion_status w = ''completed'' \<and> (n = total_steps w \<or> n + 1 = total_steps w))
         \<or> (completion_status w = ''failed_infinite_loop'' \<and> n + 1 = total_steps w)
         \<or> (completion_status w = ''failed_too_many_errors'' \<and> n = total_steps w))"

section \<open>The page as the resolvers see it\<close>

text \<open>
  A resolver works on one page: while it searches, the page answers every query the same
  way. An element is what the driver reports about it; each query either returns or
  raises. \<open>is_disabled\<close> is the value of
  \<open>el.disabled || el.getAttribute('aria-disabled') === 'true'\<close>, \<open>bounding_box\<close> is
  \<open>None\<close> or \<open>int(bbox['y'])\<close>.
\<close>

record element =
  is_visible :: "error + bool"
  is_disabled :: "error + bool"
  text_content :: "error + string option"
  bounding_box :: "error + int option"
  scroll_into_view_if_needed :: "error + unit"
  click :: "error + unit"
  click_force :: "error + unit"
  fill :: "string \<Rightarrow> error + unit"
  press_sequentially :: "string \<Rightarrow> error + unit"

text \<open>\<open>locator\<close> gives the elements a selector matches, in document order; \<open>Inl\<close> when
  counting or listing them raises.\<close>

record page =
  locator :: "string \<Rightarrow> error + element list"
  page_wait_for_timeout :: "int \<Rightarrow> error + unit"
  page_keyboard_press :: "string \<Rightarrow> error + unit"
  page_keyboard_type :: "string \<Rightarrow> error + unit"

text \<open>A sequence of driver calls inside one \<open>try\<close>: the first exception ends it.\<close>

fun all_ok :: "(error + unit) list \<Rightarrow> error + unit" where
  "all_ok [] = Inr ()"
| "all_ok (r # rs) = (case r of Inl e \<Rightarrow> Inl e | Inr _ \<Rightarrow> all_ok rs)"

section \<open>\<open>_smart_click\<close>\<close>













section \<open>Notions used in the statements about clicking\<close>



section \<open>\<open>_smart_type\<close>\<close>

text \<open>The ordered list of selectors tried for a field.\<close>

definition type_strategies :: "string \<Rightarrow> string \<Rightarrow> int \<Rightarrow> string list" where
  "type_strategies tgt sel target_y =
     (if tgt \<noteq> [] \<and> \<not> CHR '' '' \<in> set tgt \<and> 5 < length tgt
      then [''#'' @ tgt, ''input#'' @ tgt, ''[id='' @ quoted tgt @ '']''] else [])
     @ (if tgt \<noteq> [] then [''[name='' @ quoted tgt @ '']'', ''[name*='' @ quoted tgt @ '' i]''] else [])
     @ (if sel = ''placeholder'' \<or> tgt \<noteq> []
        then [''[placeholder='' @ quoted tgt @ '' i]'', ''[placeholder*='' @ quoted tgt @ '' i]'',
              ''[aria-placeholder*='' @ quoted tgt @ '' i]''] else [])
     @ (if sel = ''aria_label'' \<or> tgt \<noteq> []
        then [''[aria-label='' @ quoted tgt @ '' i]'', ''[aria-label*='' @ quoted tgt @ '' i]''] else [])
     @ (if tgt \<noteq> [] then [''[data-testid*='' @ quoted tgt @ '' i]''] else [])
     @ (if tgt \<noteq> [] \<and> length (split tgt) \<le> 3
        then [''label:has-text('' @ quoted tgt @ '') >> input'',
              '':text('' @ quoted tgt @ '') >> .. >> input''] else [])
     @ (if 0 < target_y
        then [''input[type='' @ quoted ''text'' @ '']:visible'',
              ''input:not([type='' @ quoted ''hidden'' @ '']):not([type='' @ quoted ''submit'' @ '']):visible'',
              ''textarea:visible''] else [])
     @ [''[contenteditable='' @ quoted ''true'' @ '']'']"

text \<open>\<open>best_match\<close>, \<open>best_distance\<close> (\<open>None\<close> for \<open>float('inf')\<close>) and
  \<open>best_strategy_used\<close>.\<close>

record selection =
  best_match :: "element option"
  best_distance :: "int option"
  best_strategy_used :: nat

definition no_selection :: selection where
  "no_selection = \<lparr> best_match = None, best_distance = None, best_strategy_used = 0 \<rparr>"

text \<open>\<open>distance < best_distance\<close>\<close>

definition closer :: "int \<Rightarrow> int option \<Rightarrow> bool" where
  "closer distance best = (case best of None \<Rightarrow> True | Some b \<Rightarrow> distance < b)"

text \<open>\<open>150 if i > 6 else 80\<close>\<close>

definition max_distance :: "nat \<Rightarrow> int" where
  "max_distance i = (if 6 < i then 150 else 80)"

text \<open>The scan of the matches of strategy \<open>i\<close> when a target position is given
  (the caller passes the first five). An exception on an element skips it.\<close>

fun scan_near :: "int \<Rightarrow> nat \<Rightarrow> element list \<Rightarrow> selection \<Rightarrow> selection" where
  "scan_near target_y i [] s = s"
| "scan_near target_y i (el # els) s =
     (case is_visible el of
        Inr True \<Rightarrow>
          (case bounding_box el of
             Inr (Some elem_y) \<Rightarrow>
               (let distance = \<bar>elem_y - target_y\<bar>
                in if distance < max_distance i \<and> closer distance (best_distance s)
                   then (let s' = \<lparr> best_match = Some el, best_distance = Some distance,
                                      best_strategy_used = i \<rparr>
                         in if distance < 20 then s' else scan_near target_y i els s')
                   else scan_near target_y i els s)
           | _ \<Rightarrow> scan_near target_y i els s)
      | _ \<Rightarrow> scan_near target_y i els s)"

text \<open>The scan when no target position is given (the caller passes the first two): the
  first visible element.\<close>

fun scan_first :: "nat \<Rightarrow> element list \<Rightarrow> selection \<Rightarrow> selection" where
  "scan_first i [] s = s"
| "scan_first i (el # els) s =
     (case is_visible el of
        Inr True \<Rightarrow> s \<lparr> best_match := Some el, best_strategy_used := i \<rparr>
      | _ \<Rightarrow> scan_first i els s)"

text \<open>\<open>best_match and best_strategy_used <= 6 and best_distance < 50\<close>\<close>

definition confident :: "selection \<Rightarrow> bool" where
  "confident s =
     (best_match s \<noteq> None \<and> best_strategy_used s \<le> 6
      \<and> (case best_distance s of None \<Rightarrow> False | Some d \<Rightarrow> d < 50))"

text \<open>\<open>for i, selector in enumerate(strategies, 1)\<close>\<close>

fun find_loop :: "page \<Rightarrow> int \<Rightarrow> nat \<Rightarrow> string list \<Rightarrow> selection \<Rightarrow> selection" where
  "find_loop pg target_y i [] s = s"
| "find_loop pg target_y i (selector # rest) s =
     (case locator pg selector of
        Inl _ \<Rightarrow> find_loop pg target_y (Suc i) rest s
      | Inr els \<Rightarrow>
          if els = [] then find_loop pg target_y (Suc i) rest s
          else if 0 < target_y
            then (let s' = scan_near target_y i (take 5 els) s
                  in if confident s' then s' else find_loop pg target_y (Suc i) rest s')
          else (let s' = scan_first i (take 2 els) s
                in if best_match s' \<noteq> None \<and> i \<le> 6 then s'
                   else find_loop pg target_y (Suc i) rest s'))"

text \<open>The search of \<open>_smart_type\<close> for the field.\<close>

definition find_field :: "page \<Rightarrow> string \<Rightarrow> string \<Rightarrow> int \<Rightarrow> selection" where
  "find_field pg tgt sel target_y =
     find_loop pg target_y 1 (type_strategies tgt sel target_y) no_selection"

text \<open>The three ways of typing, tried in order until one completes.\<close>

definition typed_somehow :: "page \<Rightarrow> element \<Rightarrow> string \<Rightarrow> bool" where
  "typed_somehow pg el val =
     (all_ok [fill el '''', page_wait_for_timeout pg 200, fill el val, page_wait_for_timeout pg 500] = Inr ()
      \<or> all_ok [click_force el, page_keyboard_press pg ''Control+A'', page_wait_for_timeout pg 100,
                 page_keyboard_type pg val, page_wait_for_timeout pg 500] = Inr ()
      \<or> all_ok [press_sequentially el val, page_wait_for_timeout pg 500] = Inr ())"

text \<open>The typing into the chosen element, under the outer \<open>try\<close>.\<close>

definition type_into :: "page \<Rightarrow> element \<Rightarrow> string \<Rightarrow> nat \<Rightarrow> bool \<times> string" where
  "type_into pg el val strategy_used =
     (case (case click_force el of
              Inr _ \<Rightarrow> page_wait_for_timeout pg 500
            | Inl _ \<Rightarrow> all_ok [scroll_into_view_if_needed el, page_wait_for_timeout pg 300, click el,
                               page_wait_for_timeout pg 500]) of
        Inl e \<Rightarrow> (False, ''Typing error: '' @ take 100 (str_of_error e))
      | Inr _ \<Rightarrow>
          if typed_somehow pg el val
          then (True, ''Typed using strategy '' @ str_int (int strategy_used))
          else (False, ''All typing methods failed''))"

text \<open>\<open>_smart_type\<close>: the pair it returns, and the element it typed into, if it chose
  one.\<close>

definition smart_type :: "page \<Rightarrow> string \<Rightarrow> string \<Rightarrow> string \<Rightarrow> int \<Rightarrow> (bool \<times> string) \<times> element option" where
  "smart_type pg tgt val sel target_y =
     (let s = find_field pg tgt sel target_y
      in case best_match s of
           None \<Rightarrow> ((False, ''Could not find field: '' @ tgt), None)
         | Some el \<Rightarrow> (type_into pg el val (best_strategy_used s), Some el))"

section \<open>Notions used in the statements about the resolvers\<close>

text \<open>The first five matches of a selector, which is all the positional scan looks at.\<close>

definition candidates :: "page \<Rightarrow> string \<Rightarrow> element list" where
  "candidates pg selector = (case locator pg selector of Inl _ \<Rightarrow> [] | Inr els \<Rightarrow> take 5 els)"

text \<open>The vertical distance of an element with a bounding box from the target position.\<close>

definition y_distance :: "int \<Rightarrow> element \<Rightarrow> int option" where
  "y_distance target_y el =
     (case bounding_box el of Inr (Some elem_y) \<Rightarrow> Some \<bar>elem_y - target_y\<bar> | _ \<Rightarrow> None)"

text \<open>A match of strategy \<open>i\<close> that the positional scan can accept: visible, with a
  bounding box, and nearer than the threshold of the strategy.\<close>

definition eligible :: "int \<Rightarrow> nat \<Rightarrow> element \<Rightarrow> bool" where
  "eligible target_y i el =
     (is_visible el = Inr True
      \<and> (case y_distance target_y el of None \<Rightarrow> False | Some d \<Rightarrow> d < max_distance i))"

text \<open>The choice is at most as far from the target as the element.\<close>

definition covers :: "int \<Rightarrow> selection \<Rightarrow> element \<Rightarrow> bool" where
  "covers target_y s el =
     (case (best_distance s, y_distance target_y el) of
        (Some d, Some d') \<Rightarrow> d \<le> d'
      | _ \<Rightarrow> False)"

text \<open>The choice is the element \<open>el\<close> of strategy \<open>best_strategy_used\<close>, eligible there, at
  the recorded distance; or nothing is chosen and no distance recorded.\<close>

definition sound_selection :: "int \<Rightarrow> selection \<Rightarrow> bool" where
  "sound_selection target_y s =
     (case best_match s of
        None \<Rightarrow> best_distance s = None
      | Some el \<Rightarrow> eligible target_y (best_strategy_used s) el
                    \<and> best_distance s \<noteq> None \<and> best_distance s = y_distance target_y el)"

text \<open>The scan of a strategy was cut short: the choice is closer than 20 pixels.\<close>

definition short_cut :: "selection \<Rightarrow> bool" where
  "short_cut s = (case best_distance s of None \<Rightarrow> False | Some d \<Rightarrow> d < 20)"

text \<open>The second choice is at least as near as the first (no choice counting as
  infinitely far).\<close>

definition no_farther :: "selection \<Rightarrow> selection \<Rightarrow> bool" where
  "no_farther s s' = (case best_distance s of None \<Rightarrow> True
      | Some d \<Rightarrow> (case best_distance s' of None \<Rightarrow> False | Some d' \<Rightarrow> d' \<le> d))"

text \<open>The choice \<open>r\<close> is the one of \<open>s\<close>, or it is among the first five matches of one
  of the strategies \<open>ss\<close>, numbered from \<open>i\<close>, and \<open>best_strategy_used\<close> is the number of
  that strategy.\<close>

definition found_by :: "page \<Rightarrow> nat \<Rightarrow> string list \<Rightarrow> selection \<Rightarrow> selection \<Rightarrow> bool" where
  "found_by pg i ss s r =
     ((best_match r = best_match s \<and> best_strategy_used r = best_strategy_used s)
      \<or> (\<exists>k<length ss. best_strategy_used r = i + k
            \<and> (\<exists>el\<in>set (candidates pg (ss ! k)). best_match r = Some el)))"

text \<open>No eligible element among the first five matches of the strategies \<open>ss\<close>, numbered
  from \<open>i\<close>, is nearer to the target than the choice \<open>r\<close>.\<close>

definition all_covered :: "page \<Rightarrow> int \<Rightarrow> nat \<Rightarrow> string list \<Rightarrow> selection \<Rightarrow> bool" where
  "all_covered pg ty i ss r =
     (\<forall>k<length ss. \<forall>el\<in>set (candidates pg (ss ! k)). eligible ty (i + k) el \<longrightarrow> covers ty r el)"

section \<open>Concrete drivers, plans and runs\<close>

text \<open>A driver on which every operation succeeds, and one whose resolvers report that
  they found nothing.\<close>

definition ok_driver :: driver where
  "ok_driver = \<lparr> keyboard_press = (\<lambda>k. Inr ()), wait_for_timeout = (\<lambda>ms. Inr ()),
     smart_click_op = (\<lambda>tgt sel. Inr (True, ''Clicked using strategy 1'')),
     type_contenteditable_op = (\<lambda>tgt v y. Inr (True, ''Typed into contenteditable using strategy 1'')),
     smart_type_op = (\<lambda>tgt v sel y. Inr (True, ''Typed using strategy 1'')) \<rparr>"

definition failing_driver :: driver where
  "failing_driver = \<lparr> keyboard_press = (\<lambda>k. Inr ()), wait_for_timeout = (\<lambda>ms. Inr ()),
     smart_click_op = (\<lambda>tgt sel. Inr (False, ''Could not click: '' @ tgt)),
     type_contenteditable_op = (\<lambda>tgt v y. Inr (False, ''Could not type into contenteditable: '' @ tgt)),
     smart_type_op = (\<lambda>tgt v sel y. Inr (False, ''Could not find field: '' @ tgt)) \<rparr>"

text \<open>The plan \<open>analyze_and_plan\<close> returns when the planner's answer cannot be parsed.\<close>

definition wait_plan :: action_plan where
  "wait_plan = \<lparr> action = ''wait'', target = Missing, selector_type = None, plan_value = None,
     field_purpose = None, target_y_position = 0, wait_after = 2000, is_complete = False,
     confidence = 0.3, reasoning = Some ''Could not parse LLM response'' \<rparr>"

definition plan_of :: "string \<Rightarrow> string \<Rightarrow> action_plan" where
  "plan_of act tgt = wait_plan \<lparr> action := act, target := Text tgt, reasoning := None \<rparr>"

text \<open>The plan parsed from an answer with \<open>"action": "wait", "target": null\<close>.\<close>

definition null_target_plan :: action_plan where
  "null_target_plan = wait_plan \<lparr> target := Null, reasoning := Some ''Waiting for the page'' \<rparr>"

definition type_plan :: action_plan where
  "type_plan = (plan_of ''type'' ''Repository name'')
     \<lparr> plan_value := Some ''my-test-repo'', field_purpose := Some ''name'',
       target_y_position := 310 \<rparr>"

definition complete_plan :: action_plan where
  "complete_plan = wait_plan \<lparr> action := ''complete'', is_complete := True, confidence := 0.9 \<rparr>"

definition env_of :: "driver \<Rightarrow> action_plan \<Rightarrow> step_env" where
  "env_of d p = \<lparr> capture_screenshot = Inr ''screenshots/step.png'',
     current_url = ''https://github.com/new'', planned = p,
     url_at_record = ''https://github.com/new'', now_isoformat = ''2025-01-01T00:00:00'',
     step_driver = d \<rparr>"

definition no_login :: task_env where
  "no_login = \<lparr> url_after_goto = ''https://github.com'', wait_for_login = Inr True,
     initial_page_url = ''https://github.com'' \<rparr>"

definition press_plan :: action_plan where
  "press_plan = wait_plan \<lparr> action := ''press_key'', plan_value := Some ''Tab'', reasoning := None \<rparr>"

text \<open>The planner answers with the same key press at every step, and each succeeds.\<close>

definition always_press :: "nat \<Rightarrow> step_env" where
  "always_press step = env_of ok_driver press_plan"

text \<open>The planner answers with the same key press three times and then reports
  completion.\<close>

definition press_thrice_then_complete :: "nat \<Rightarrow> step_env" where
  "press_thrice_then_complete step =
     (if step \<le> 3 then env_of ok_driver press_plan else env_of ok_driver complete_plan)"


text \<open>The planner answers with a \<open>null\<close> target at every step.\<close>

definition null_target_always :: "nat \<Rightarrow> step_env" where
  "null_target_always step = env_of ok_driver null_target_plan"

text \<open>Every click fails, each on another target, and no plan reports completion.\<close>

definition failing_clicks_plain :: "nat \<Rightarrow> step_env" where
  "failing_clicks_plain step =
     env_of failing_driver (plan_of ''click'' (''B'' @ str_int (int step)))"

text \<open>The runs of \<open>execute_task\<close> on these planners, for the task of creating a repository
  on GitHub with the default budget of 20 steps.\<close>

definition the_task :: string where
  "the_task = ''Create a new repository named my-test-repo''"

definition the_url :: string where
  "the_url = ''https://github.com''"

definition first_state :: loop_state where
  "first_state = initial_loop_state the_task the_url ''github'' new_tracker"

definition run_of :: "(nat \<Rightarrow> step_env) \<Rightarrow> error + task_workflow" where
  "run_of env = execute_task no_login env new_tracker the_task the_url ''github'' 20"


definition reached :: "(nat \<Rightarrow> step_env) \<Rightarrow> nat \<Rightarrow> loop_state option" where
  "reached env n = state_after env the_task the_url n 1 first_state"


section \<open>Concrete pages\<close>

text \<open>An enabled, visible element with the given text, on which every operation
  succeeds.\<close>

definition plain_element :: "string \<Rightarrow> element" where
  "plain_element txt = \<lparr> is_visible = Inr True, is_disabled = Inr False,
     text_content = Inr (Some txt), bounding_box = Inr (Some 300),
     scroll_into_view_if_needed = Inr (), click = Inr (), click_force = Inr (),
     fill = (\<lambda>v. Inr ()), press_sequentially = (\<lambda>v. Inr ()) \<rparr>"

text \<open>A page on which one selector matches the given elements and every other selector
  matches nothing; waiting and the keyboard work.\<close>

definition page_with :: "string \<Rightarrow> element list \<Rightarrow> page" where
  "page_with selector els = \<lparr> locator = (\<lambda>s. if s = selector then Inr els else Inr []),
     page_wait_for_timeout = (\<lambda>ms. Inr ()), page_keyboard_press = (\<lambda>k. Inr ()),
     page_keyboard_type = (\<lambda>v. Inr ()) \<rparr>"





text \<open>A visible text field at the given vertical position.\<close>

definition field_at :: "int \<Rightarrow> element" where
  "field_at y = (plain_element []) \<lparr> bounding_box := Inr (Some y) \<rparr>"

text \<open>Two fields alike but for their positions, 100 and 500, matched by the last
  strategy of every search.\<close>

definition two_field_page :: page where
  "two_field_page = page_with (''[contenteditable='' @ quoted ''true'' @ '']'')
     [field_at 100, field_at 500]"

text \<open>Two fields with one name, at 495 and at 510.\<close>

definition near_fields_page :: page where
  "near_fields_page = page_with (''[name='' @ quoted ''title'' @ '']'') [field_at 495, field_at 510]"

text \<open>One field with that name, at 100.\<close>

definition far_field_page :: page where
  "far_field_page = page_with (''[name='' @ quoted ''title'' @ '']'') [field_at 100]"

section \<open>Decimal rendering is injective\<close>

lemma digit_char_inj: "a < 10 \<Longrightarrow> b < 10 \<Longrightarrow> digit_char a = digit_char b \<Longrightarrow> a = b"
proof -
  assume a: "a < 10" and b: "b < 10" and e: "digit_char a = digit_char b"
  have d: "distinct ''0123456789''" by simp
  have "a < length ''0123456789''" and "b < length ''0123456789''" using a b by simp_all
  with d e show "a = b" unfolding digit_char_def by (simp only: nth_eq_iff_index_eq)
qed

lemma digit_char_not_minus: "d < 10 \<Longrightarrow> digit_char d \<noteq> CHR ''-''"
proof -
  assume "d < 10"
  then have "d < length ''0123456789''" by simp
  then have "''0123456789'' ! d \<in> set ''0123456789''" by (rule nth_mem)
  then show ?thesis unfolding digit_char_def by auto
qed

lemma str_nat_small: "n < 10 \<Longrightarrow> str_nat n = [digit_char n]"
  by (subst str_nat.simps) simp

lemma str_nat_big: "10 \<le> n \<Longrightarrow> str_nat n = str_nat (n div 10) @ [digit_char (n mod 10)]"
  by (subst str_nat.simps) simp

lemma str_nat_nonempty: "str_nat n \<noteq> []"
  by (subst str_nat.simps) simp

lemma str_nat_length_big: "10 \<le> n \<Longrightarrow> 2 \<le> length (str_nat n)"
proof -
  assume h: "10 \<le> n"
  have "length (str_nat (n div 10)) \<noteq> 0" using str_nat_nonempty by simp
  then have "1 \<le> length (str_nat (n div 10))" by arith
  then show ?thesis using h by (simp add: str_nat_big)
qed

lemma str_nat_inj: "str_nat n = str_nat m \<Longrightarrow> n = m"
proof (induction n arbitrary: m rule: less_induct)
  case (less n)
  show ?case
  proof (cases "n < 10")
    case True
    then have ln: "length (str_nat n) = 1" by (simp add: str_nat_small)
    have "m < 10"
    proof (rule ccontr)
      assume "\<not> m < 10"
      then have "2 \<le> length (str_nat m)" using str_nat_length_big by simp
      with ln less.prems show False by simp
    qed
    with True less.prems show ?thesis
      by (simp add: str_nat_small digit_char_inj)
  next
    case False
    then have nb: "10 \<le> n" by simp
    have mb: "10 \<le> m"
    proof (rule ccontr)
      assume "\<not> 10 \<le> m"
      then have "length (str_nat m) = 1" by (simp add: str_nat_small)
      moreover have "2 \<le> length (str_nat n)" using nb by (rule str_nat_length_big)
      ultimately show False using less.prems by simp
    qed
    from less.prems nb mb
    have e: "str_nat (n div 10) @ [digit_char (n mod 10)] = str_nat (m div 10) @ [digit_char (m mod 10)]"
      by (simp add: str_nat_big)
    then have e1: "str_nat (n div 10) = str_nat (m div 10)"
      and e2: "digit_char (n mod 10) = digit_char (m mod 10)" by simp_all
    have "n div 10 < n" using nb by simp
    then have d: "n div 10 = m div 10" using less.IH e1 by blast
    have r: "n mod 10 = m mod 10" using e2 by (intro digit_char_inj) simp_all
    from d r show ?thesis by (metis div_mult_mod_eq)
  qed
qed

lemma str_nat_hd_not_minus: "hd (str_nat n) \<noteq> CHR ''-''"
proof (induction n rule: less_induct)
  case (less n)
  show ?case
  proof (cases "n < 10")
    case True
    have "digit_char n \<noteq> CHR ''-''" using True by (rule digit_char_not_minus)
    then show ?thesis using True by (simp add: str_nat_small)
  next
    case False
    then have "n div 10 < n" by simp
    then have "hd (str_nat (n div 10)) \<noteq> CHR ''-''" using less.IH by blast
    then show ?thesis using False str_nat_nonempty by (simp add: str_nat_big)
  qed
qed

lemma str_int_inj: "str_int a = str_int b \<Longrightarrow> a = b"
proof -
  assume e: "str_int a = str_int b"
  have neg_pos: "\<And>x y. x < 0 \<Longrightarrow> \<not> y < 0 \<Longrightarrow> str_int x \<noteq> str_int y"
  proof
    fix x y :: int
    assume x: "x < 0" and y: "\<not> y < 0" and q: "str_int x = str_int y"
    then have "CHR ''-'' # str_nat (nat (- x)) = str_nat (nat y)" by (simp add: str_int_def)
    then have "hd (str_nat (nat y)) = CHR ''-''" by (metis list.sel(1))
    then show False using str_nat_hd_not_minus by blast
  qed
  show "a = b"
  proof (cases "a < 0")
    case True
    then have bn: "b < 0" using neg_pos [of a b] e by blast
    with True e have "str_nat (nat (- a)) = str_nat (nat (- b))" by (simp add: str_int_def)
    then have "nat (- a) = nat (- b)" by (rule str_nat_inj)
    with True bn show ?thesis by simp
  next
    case False
    then have bn: "\<not> b < 0" using neg_pos [of b a] e by metis
    with False e have "str_nat (nat a) = str_nat (nat b)" by (simp add: str_int_def)
    then have "nat a = nat b" by (rule str_nat_inj)
    with False bn show ?thesis by simp
  qed
qed

section \<open>The field tracker\<close>

lemma create_field_key_eq_iff:
  "create_field_key f p y1 = create_field_key f p y2 \<longleftrightarrow> y1 div 100 = y2 div 100"
  by (auto simp: create_field_key_def dest: str_int_inj)

lemma is_filled_mark_filled: "is_filled (mark_filled t f p v y) f p y"
  by (simp add: is_filled_def mark_filled_def Let_def)

lemma is_filled_mark_filled_other:
  "is_filled t f p y \<Longrightarrow> is_filled (mark_filled t f' p' v' y') f p y"
  by (simp add: is_filled_def mark_filled_def Let_def)

lemma is_filled_mark_filled_calls:
  "is_filled t f p y \<Longrightarrow> is_filled (mark_filled_calls t cs) f p y"
  by (induction t cs rule: mark_filled_calls.induct) (simp_all add: is_filled_mark_filled_other)

lemma not_is_filled_reset: "\<not> is_filled (reset t) f p y"
  by (simp add: is_filled_def reset_def)

text \<open>
  C4. After \<open>mark_filled\<close> for a key, \<open>is_filled\<close> on that key is true and stays true
  across any further \<open>mark_filled\<close> calls (for this key or any other); after \<open>reset\<close>,
  \<open>is_filled\<close> is false for every key.
\<close>

theorem mark_filled_is_filled_until_reset:
  "is_filled (mark_filled_calls (mark_filled t f p v y) cs) f p y
   \<and> \<not> is_filled (reset (mark_filled_calls (mark_filled t f p v y) cs)) f' p' y'"
  by (simp add: is_filled_mark_filled_calls is_filled_mark_filled not_is_filled_reset)

theorem mark_filled_is_filled_until_reset_witness:
  "is_filled (mark_filled_calls (mark_filled new_tracker ''title'' ''name'' ''v'' 120)
      [(''body'', ''other'', ''w'', 300)]) ''title'' ''name'' 120
   \<and> \<not> is_filled (reset (mark_filled_calls (mark_filled new_tracker ''title'' ''name'' ''v'' 120)
      [(''body'', ''other'', ''w'', 300)])) ''title'' ''name'' 120"
  using mark_filled_is_filled_until_reset [of new_tracker "''title''" "''name''" "''v''" 120
      "[(''body'', ''other'', ''w'', 300)]" "''title''" "''name''" 120]
  by simp

text \<open>
  C7, as amended. The key is composed of the field id, the purpose and the vertical
  position divided by 100 and rounded down (\<open>position_y // 100\<close>): for one field id and
  purpose, the keys of two positions are equal exactly when the positions have the same
  quotient by 100, that is when both lie in the same interval \<open>[100 k, 100 k + 99]\<close>.
\<close>

theorem create_field_key_floor_bucket:
  "(create_field_key field_id purpose y1 = create_field_key field_id purpose y2)
     = (y1 div 100 = y2 div 100)"
  by (rule create_field_key_eq_iff)

theorem create_field_key_floor_bucket_witness:
  "(create_field_key ''title'' ''name'' 100 = create_field_key ''title'' ''name'' 199)
     = ((100::int) div 100 = 199 div 100)"
  using create_field_key_floor_bucket [of "''title''" "''name''" 100 199] by simp

text \<open>
  The claim as written fails: 160 and 240 are both nearest to 200, yet their keys differ.
\<close>

theorem create_field_key_nearest_100_counterexample:
  "nearest_100 160 = nearest_100 240
   \<and> create_field_key ''title'' ''name'' 160 \<noteq> create_field_key ''title'' ''name'' 240"
  by (simp add: nearest_100_def create_field_key_eq_iff)

section \<open>The executor and the tracker\<close>

lemma attempts_match_new: "attempts_match new_tracker"
  by (simp add: attempts_match_def new_tracker_def)

lemma attempts_match_reset: "attempts_match (reset t)"
  by (simp add: attempts_match_def reset_def)

lemma attempts_match_unfilled:
  "attempts_match t \<Longrightarrow> \<not> is_filled t f p y \<Longrightarrow> get_attempts t f p y = 0"
  by (simp add: attempts_match_def is_filled_def get_attempts_def)

lemma attempts_match_mark_filled:
  "attempts_match t \<Longrightarrow> \<not> is_filled t f p y \<Longrightarrow> attempts_match (mark_filled t f p v y)"
  by (simp add: attempts_match_def is_filled_def mark_filled_def Let_def)

lemma attempts_match_content_created:
  "attempts_match t \<Longrightarrow> attempts_match (t \<lparr> content_created := b \<rparr>)"
  by (simp add: attempts_match_def)

lemma attempts_match_click:
  "attempts_match t \<Longrightarrow> click_action d p tgt t = Inr (r, t') \<Longrightarrow> attempts_match t'"
  by (auto simp: click_action_def attempts_match_reset split: sum.splits prod.splits if_splits)

lemma attempts_match_type:
  "attempts_match t \<Longrightarrow> type_action d p tgt t = Inr (r, t') \<Longrightarrow> attempts_match t'"
  by (auto simp: type_action_def Let_def attempts_match_mark_filled
      split: sum.splits prod.splits if_splits)

lemma attempts_match_type_contenteditable:
  "attempts_match t \<Longrightarrow> type_contenteditable_action d p tgt t = Inr (r, t') \<Longrightarrow> attempts_match t'"
  by (auto simp: type_contenteditable_action_def Let_def attempts_match_mark_filled
      attempts_match_content_created split: sum.splits prod.splits if_splits)

lemma attempts_match_body:
  "attempts_match t \<Longrightarrow> execute_action_body d p tgt t = Inr (r, t') \<Longrightarrow> attempts_match t'"
  unfolding execute_action_body_def Let_def
  by (auto split: if_splits sum.splits
      dest: attempts_match_click attempts_match_type attempts_match_type_contenteditable)

lemma attempts_match_execute_action:
  "attempts_match t \<Longrightarrow> execute_action d p t = Inr (r, t') \<Longrightarrow> attempts_match t'"
  by (auto simp: execute_action_def split: option.splits sum.splits dest: attempts_match_body)

lemma attempts_match_execute_actions:
  "attempts_match t \<Longrightarrow> attempts_match (execute_actions t steps)"
proof (induction t steps rule: execute_actions.induct)
  case (1 t)
  then show ?case by simp
next
  case (2 t d p rest)
  have "attempts_match (case execute_action d p t of Inl _ \<Rightarrow> t | Inr r \<Rightarrow> snd r)"
    using "2.prems" by (auto split: sum.splits dest: attempts_match_execute_action)
  then show ?case using "2.IH" by simp
qed

lemma attempts_match_bound:
  "attempts_match t \<Longrightarrow> get_attempts t f p y \<le> 1"
  by (simp add: attempts_match_def get_attempts_def)

lemma attempts_match_stored:
  "attempts_match t \<Longrightarrow> field_attempts t k = None \<or> field_attempts t k = Some 1"
  by (simp add: attempts_match_def)

section \<open>One iteration of the loop\<close>

lemma rae_Continue:
  assumes "record_and_execute e step shot st = Continue st'"
  shows "completion_status (workflow st') = completion_status (workflow st)"
    and "length (states (workflow st')) = Suc (length (states (workflow st)))"
    and "same_action_count st' = same_action_count st"
    and "last_action_signature st' = last_action_signature st"
    and "consecutive_failures st' = (if action_succeeds e st then 0 else consecutive_failures st + 1)"
    and "consecutive_failures st' < 4"
    and "\<not> self_reported (planned e)"
  using assms
  unfolding record_and_execute_def Let_def set_status_def action_succeeds_def self_reported_def
  by (auto split: sum.splits if_splits option.splits)

lemma rae_Break:
  assumes "record_and_execute e step shot st = Break st'"
  shows "length (states (workflow st')) = Suc (length (states (workflow st)))"
    and "total_steps (workflow st') = int step"
    and "consecutive_failures st' = (if action_succeeds e st then 0 else consecutive_failures st + 1)"
    and "completion_status (workflow st') =
           (if self_reported (planned e) then ''completed'' else ''failed_too_many_errors'')"
    and "self_reported (planned e) \<or> 4 \<le> consecutive_failures st'"
  using assms
  unfolding record_and_execute_def Let_def set_status_def action_succeeds_def self_reported_def
  by (auto split: sum.splits if_splits option.splits)

lemma rg_Continue:
  assumes "repetition_guard e step shot st = Continue st'"
  shows "completion_status (workflow st') = completion_status (workflow st)"
    and "length (states (workflow st')) = Suc (length (states (workflow st)))"
    and "last_action_signature st' = action_signature (planned e)"
    and "same_action_count st' =
          (if action_signature (planned e) = last_action_signature st
           then same_action_count st + 1 else 0)"
    and "same_action_count st' < 3"
    and "consecutive_failures st' = (if action_succeeds e st then 0 else consecutive_failures st + 1)"
    and "consecutive_failures st' < 4"
    and "\<not> self_reported (planned e)"
proof -
  let ?sig = "action_signature (planned e)"
  let ?st1 = "(if ?sig = last_action_signature st
      then st \<lparr> same_action_count := same_action_count st + 1, last_action_signature := ?sig \<rparr>
      else st \<lparr> same_action_count := 0, last_action_signature := ?sig \<rparr>)"
  have r: "record_and_execute e step shot ?st1 = Continue st'"
    and lt: "same_action_count ?st1 < 3"
    using assms unfolding repetition_guard_def Let_def
    by (auto split: if_splits)
  have s: "action_succeeds e ?st1 = action_succeeds e st"
    by (simp add: action_succeeds_def)
  show "completion_status (workflow st') = completion_status (workflow st)"
    using rae_Continue(1) [OF r] by simp
  show "length (states (workflow st')) = Suc (length (states (workflow st)))"
    using rae_Continue(2) [OF r] by simp
  show "last_action_signature st' = action_signature (planned e)"
    using rae_Continue(4) [OF r] by simp
  show "same_action_count st' =
          (if action_signature (planned e) = last_action_signature st
           then same_action_count st + 1 else 0)"
    using rae_Continue(3) [OF r] by simp
  show "same_action_count st' < 3"
    using rae_Continue(3) [OF r] lt by simp
  show "consecutive_failures st' = (if action_succeeds e st then 0 else consecutive_failures st + 1)"
    using rae_Continue(5) [OF r] s by simp
  show "consecutive_failures st' < 4" by (rule rae_Continue(6) [OF r])
  show "\<not> self_reported (planned e)" by (rule rae_Continue(7) [OF r])
qed

lemma rg_trigger:
  assumes "action_signature (planned e) = last_action_signature st"
    and "2 \<le> same_action_count st"
  shows "repetition_guard e step shot st =
     Break (set_status ''failed_infinite_loop'' step (st \<lparr> same_action_count := same_action_count st + 1 \<rparr>))"
  using assms unfolding repetition_guard_def Let_def by simp

lemma rg_Break:
  assumes "repetition_guard e step shot st = Break st'"
  shows "total_steps (workflow st') = int step"
    and "(completion_status (workflow st') = ''failed_infinite_loop''
          \<and> length (states (workflow st')) = length (states (workflow st))
          \<and> consecutive_failures st' = consecutive_failures st)
       \<or> (length (states (workflow st')) = Suc (length (states (workflow st)))
          \<and> consecutive_failures st' = (if action_succeeds e st then 0 else consecutive_failures st + 1)
          \<and> completion_status (workflow st') =
              (if self_reported (planned e) then ''completed'' else ''failed_too_many_errors'')
          \<and> (self_reported (planned e) \<or> 4 \<le> consecutive_failures st'))"
proof -
  let ?sig = "action_signature (planned e)"
  let ?st1 = "(if ?sig = last_action_signature st
      then st \<lparr> same_action_count := same_action_count st + 1, last_action_signature := ?sig \<rparr>
      else st \<lparr> same_action_count := 0, last_action_signature := ?sig \<rparr>)"
  have s: "action_succeeds e ?st1 = action_succeeds e st"
    by (simp add: action_succeeds_def)
  have w: "workflow ?st1 = workflow st" and c: "consecutive_failures ?st1 = consecutive_failures st"
    by simp_all
  show "total_steps (workflow st') = int step"
  proof (cases "?sig = last_action_signature st \<and> 3 \<le> same_action_count st + 1")
    case True
    then have "st' = set_status ''failed_infinite_loop'' step
                     (st \<lparr> same_action_count := same_action_count st + 1 \<rparr>)"
      using assms by (simp add: repetition_guard_def Let_def)
    then show ?thesis by (simp add: set_status_def)
  next
    case False
    then have exec: "record_and_execute e step shot ?st1 = Break st'"
      using assms by (simp add: repetition_guard_def Let_def split: if_splits)
    show ?thesis by (rule rae_Break(2) [OF exec])
  qed
  show "(completion_status (workflow st') = ''failed_infinite_loop''
          \<and> length (states (workflow st')) = length (states (workflow st))
          \<and> consecutive_failures st' = consecutive_failures st)
       \<or> (length (states (workflow st')) = Suc (length (states (workflow st)))
          \<and> consecutive_failures st' = (if action_succeeds e st then 0 else consecutive_failures st + 1)
          \<and> completion_status (workflow st') =
              (if self_reported (planned e) then ''completed'' else ''failed_too_many_errors'')
          \<and> (self_reported (planned e) \<or> 4 \<le> consecutive_failures st'))"
  proof (cases "?sig = last_action_signature st \<and> 3 \<le> same_action_count st + 1")
    case True
    then have "st' = set_status ''failed_infinite_loop'' step
                     (st \<lparr> same_action_count := same_action_count st + 1 \<rparr>)"
      using assms by (simp add: repetition_guard_def Let_def)
    then have "completion_status (workflow st') = ''failed_infinite_loop''
          \<and> length (states (workflow st')) = length (states (workflow st))
          \<and> consecutive_failures st' = consecutive_failures st"
      by (simp add: set_status_def)
    then show ?thesis by (rule disjI1)
  next
    case False
    then have exec: "record_and_execute e step shot ?st1 = Break st'"
      using assms by (simp add: repetition_guard_def Let_def split: if_splits)
    have "length (states (workflow st')) = Suc (length (states (workflow st)))"
      using rae_Break(1) [OF exec] w by simp
    moreover have "consecutive_failures st' = (if action_succeeds e st then 0 else consecutive_failures st + 1)"
      using rae_Break(3) [OF exec] s c by simp
    moreover note rae_Break(4) [OF exec] rae_Break(5) [OF exec]
    ultimately show ?thesis by blast
  qed
qed

lemma lb_Continue:
  assumes "loop_body e task iu step st = Continue st'"
  shows "repetition_guard e step (projr (capture_screenshot e)) st = Continue st'"
  using assms unfolding loop_body_def
  by (auto split: sum.splits bool.splits)

lemma lb_Break:
  assumes "loop_body e task iu step st = Break st'"
  shows "st' = set_status ''completed'' step st
      \<or> repetition_guard e step (projr (capture_screenshot e)) st = Break st'"
  using assms unfolding loop_body_def
  by (auto split: sum.splits bool.splits)

lemma lb_guard:
  assumes "capture_screenshot e = Inr shot" and "early_completion e task iu st = Inr False"
  shows "loop_body e task iu step st = repetition_guard e step shot st"
  using assms unfolding loop_body_def by simp

lemma lb_inv:
  assumes "loop_inv step st" and "loop_body e task iu step st = Continue st'"
  shows "loop_inv (Suc step) st'"
proof -
  note g = lb_Continue [OF assms(2)]
  show ?thesis
    using assms(1) rg_Continue(1) [OF g] rg_Continue(2) [OF g] rg_Continue(4) [OF g]
      rg_Continue(5) [OF g] rg_Continue(6) [OF g] rg_Continue(7) [OF g]
    unfolding loop_inv_def by (simp split: if_splits)
qed

lemma lb_break_shape:
  assumes "loop_inv step st" and "loop_body e task iu step st = Break st'"
  shows "break_shape st'"
  using lb_Break [OF assms(2)]
proof
  assume "st' = set_status ''completed'' step st"
  then show ?thesis using assms(1) unfolding loop_inv_def break_shape_def Let_def set_status_def
    by auto
next
  assume g: "repetition_guard e step (projr (capture_screenshot e)) st = Break st'"
  show ?thesis
    using assms(1) rg_Break(1) [OF g] rg_Break(2) [OF g]
    unfolding loop_inv_def break_shape_def Let_def
    by (auto split: if_splits)
qed

lemma state_after_inv:
  "loop_inv step st \<Longrightarrow> state_after env task iu n step st = Some st' \<Longrightarrow> loop_inv (step + n) st'"
proof (induction n arbitrary: step st)
  case 0
  then show ?case by simp
next
  case (Suc n)
  then obtain st1 where b: "loop_body (env step) task iu step st = Continue st1"
    and r: "state_after env task iu n (Suc step) st1 = Some st'"
    by (auto split: step_result.splits)
  have "loop_inv (Suc step) st1" using Suc.prems(1) b by (rule lb_inv)
  then have "loop_inv (Suc step + n) st'" using r by (rule Suc.IH)
  then show ?case by simp
qed

lemma run_steps_shape:
  "loop_inv step st \<Longrightarrow> run_steps env task iu n step st = Inr st' \<Longrightarrow>
     break_shape st' \<or> loop_inv (step + n) st'"
proof (induction n arbitrary: step st)
  case 0
  then show ?case by simp
next
  case (Suc n)
  show ?case
  proof (cases "loop_body (env step) task iu step st")
    case (Continue st1)
    then have r: "run_steps env task iu n (Suc step) st1 = Inr st'" using Suc.prems(2) by simp
    have "loop_inv (Suc step) st1" using Suc.prems(1) Continue by (rule lb_inv)
    then have "break_shape st' \<or> loop_inv (Suc step + n) st'" using r by (rule Suc.IH)
    then show ?thesis by simp
  next
    case (Break st1)
    then have "st' = st1" using Suc.prems(2) by simp
    then show ?thesis using lb_break_shape [OF Suc.prems(1) Break] by simp
  next
    case (Raise err)
    then show ?thesis using Suc.prems(2) by simp
  qed
qed

lemma run_steps_state_after:
  "state_after env task iu n step st = Some st' \<Longrightarrow>
     run_steps env task iu (n + m) step st = run_steps env task iu m (step + n) st'"
proof (induction n arbitrary: step st)
  case 0
  then show ?case by simp
next
  case (Suc n)
  then obtain st1 where b: "loop_body (env step) task iu step st = Continue st1"
    and r: "state_after env task iu n (Suc step) st1 = Some st'"
    by (auto split: step_result.splits)
  show ?case using b Suc.IH [OF r] by simp
qed

lemma state_after_add:
  "state_after env task iu (n + m) step st = Some st'' \<Longrightarrow>
     \<exists>st'. state_after env task iu n step st = Some st' \<and> state_after env task iu m (step + n) st' = Some st''"
proof (induction n arbitrary: step st)
  case 0
  then show ?case by simp
next
  case (Suc n)
  then obtain st1 where b: "loop_body (env step) task iu step st = Continue st1"
    and r: "state_after env task iu (n + m) (Suc step) st1 = Some st''"
    by (auto split: step_result.splits)
  from Suc.IH [OF r] show ?case using b by simp
qed

lemma initial_loop_inv: "loop_inv 1 (initial_loop_state task u nm t)"
  by (simp add: loop_inv_def initial_loop_state_def)

section \<open>Runs of the loop\<close>

lemma rep_run:
  "last_action_signature st = s \<Longrightarrow> c \<le> same_action_count st \<Longrightarrow>
   (\<forall>j<n. action_signature (planned (env (step + j))) = s) \<Longrightarrow>
   state_after env task iu n step st = Some st' \<Longrightarrow>
   last_action_signature st' = s \<and> c + int n \<le> same_action_count st'"
proof (induction n arbitrary: step st c)
  case 0
  then show ?case by simp
next
  case (Suc n)
  then obtain st1 where b: "loop_body (env step) task iu step st = Continue st1"
    and r: "state_after env task iu n (Suc step) st1 = Some st'"
    by (auto split: step_result.splits)
  have sg: "action_signature (planned (env step)) = s" using Suc.prems(3) by force
  note g = lb_Continue [OF b]
  have l1: "last_action_signature st1 = s" using rg_Continue(3) [OF g] sg by simp
  have c1: "c + 1 \<le> same_action_count st1"
    using rg_Continue(4) [OF g] sg Suc.prems(1) Suc.prems(2) by simp
  have a: "\<forall>j<n. action_signature (planned (env (Suc step + j))) = s"
    using Suc.prems(3) by (metis Suc_less_eq add_Suc_right add_Suc)
  from Suc.IH [OF l1 c1 a r] show ?case by simp
qed

lemma signature_run:
  assumes inv: "0 \<le> same_action_count st"
    and sigs: "\<forall>j<Suc n. action_signature (planned (env (step + j))) = s"
    and run: "state_after env task iu (Suc n) step st = Some st'"
  shows "last_action_signature st' = s \<and> int n \<le> same_action_count st'"
proof -
  from run obtain st1 where b: "loop_body (env step) task iu step st = Continue st1"
    and r: "state_after env task iu n (Suc step) st1 = Some st'"
    by (auto split: step_result.splits)
  have sg: "action_signature (planned (env step)) = s" using sigs by force
  note g = lb_Continue [OF b]
  have l1: "last_action_signature st1 = s" using rg_Continue(3) [OF g] sg by simp
  have c1: "0 \<le> same_action_count st1"
    using rg_Continue(4) [OF g] inv by (simp split: if_splits)
  have a: "\<forall>j<n. action_signature (planned (env (Suc step + j))) = s"
    using sigs by (metis Suc_less_eq add_Suc_right add_Suc)
  from rep_run [OF l1 c1 a r] show ?thesis by simp
qed

lemma finish_done: "completion_status w \<noteq> ''in_progress'' \<Longrightarrow> finish m w = w"
  by (simp add: finish_def)

lemma isr_run: "isl x = False \<Longrightarrow> x = Inr (projr x)"
  by (cases x) simp_all


lemma is_Break_eq: "is_Break r \<Longrightarrow> r = Break (state_of r)"
  by (cases r) simp_all

lemma is_Some_eq: "x \<noteq> None \<Longrightarrow> x = Some (the x)"
  by (cases x) simp_all

section \<open>The failure counter along a run\<close>






section \<open>What the click resolver clicks\<close>








section \<open>The positional scan of the typing resolver\<close>

lemma no_farther_refl: "no_farther s s"
  by (simp add: no_farther_def split: option.splits)

lemma no_farther_trans: "no_farther s s' \<Longrightarrow> no_farther s' s'' \<Longrightarrow> no_farther s s''"
  by (auto simp: no_farther_def split: option.splits)

lemma covers_mono: "covers ty s el \<Longrightarrow> no_farther s s' \<Longrightarrow> covers ty s' el"
  by (auto simp: covers_def no_farther_def split: option.splits)

lemma short_cut_mono: "short_cut s \<Longrightarrow> no_farther s s' \<Longrightarrow> short_cut s'"
  by (auto simp: short_cut_def no_farther_def split: option.splits)

lemma scan_near_props:
  "sound_selection ty s \<Longrightarrow>
   sound_selection ty (scan_near ty i els s)
   \<and> no_farther s (scan_near ty i els s)
   \<and> (short_cut (scan_near ty i els s)
       \<or> (\<forall>el\<in>set els. eligible ty i el \<longrightarrow> covers ty (scan_near ty i els s) el))
   \<and> (best_match (scan_near ty i els s) = best_match s
         \<and> best_strategy_used (scan_near ty i els s) = best_strategy_used s
       \<or> (best_strategy_used (scan_near ty i els s) = i
          \<and> (\<exists>el\<in>set els. best_match (scan_near ty i els s) = Some el)))"
proof (induction els arbitrary: s)
  case Nil
  then show ?case by (simp add: no_farther_refl)
next
  case (Cons el els)
  let ?accept = "is_visible el = Inr True \<and> (\<exists>y. bounding_box el = Inr (Some y)
      \<and> \<bar>y - ty\<bar> < max_distance i \<and> closer \<bar>y - ty\<bar> (best_distance s))"
  show ?case
  proof (cases ?accept)
    case True
    then obtain y where v: "is_visible el = Inr True" and b: "bounding_box el = Inr (Some y)"
      and lt: "\<bar>y - ty\<bar> < max_distance i" and cl: "closer \<bar>y - ty\<bar> (best_distance s)" by blast
    let ?s' = "\<lparr> best_match = Some el, best_distance = Some \<bar>y - ty\<bar>, best_strategy_used = i \<rparr>"
    have snd': "sound_selection ty ?s'"
      using v b lt by (simp add: sound_selection_def eligible_def y_distance_def)
    have nf: "no_farther s ?s'"
      using cl by (auto simp: no_farther_def closer_def split: option.splits)
    have cov: "covers ty ?s' el" using b by (simp add: covers_def y_distance_def)
    show ?thesis
    proof (cases "\<bar>y - ty\<bar> < 20")
      case True
      then have r: "scan_near ty i (el # els) s = ?s'"
        using v b lt cl by (simp add: Let_def)
      show ?thesis unfolding r using snd' nf True by (simp add: short_cut_def)
    next
      case False
      then have r: "scan_near ty i (el # els) s = scan_near ty i els ?s'"
        using v b lt cl by (simp add: Let_def)
      from Cons.IH [OF snd'] have ih: "sound_selection ty (scan_near ty i els ?s')"
        "no_farther ?s' (scan_near ty i els ?s')"
        "short_cut (scan_near ty i els ?s')
           \<or> (\<forall>el\<in>set els. eligible ty i el \<longrightarrow> covers ty (scan_near ty i els ?s') el)"
        "best_match (scan_near ty i els ?s') = best_match ?s'
             \<and> best_strategy_used (scan_near ty i els ?s') = best_strategy_used ?s'
           \<or> (best_strategy_used (scan_near ty i els ?s') = i
              \<and> (\<exists>el\<in>set els. best_match (scan_near ty i els ?s') = Some el))"
        by blast+
      have c0: "covers ty (scan_near ty i els ?s') el" using cov ih(2) by (rule covers_mono)
      have used: "best_strategy_used (scan_near ty i els ?s') = i
          \<and> (\<exists>e\<in>set (el # els). best_match (scan_near ty i els ?s') = Some e)"
        using ih(4) by auto
      show ?thesis unfolding r
        using ih(1) no_farther_trans [OF nf ih(2)] ih(3) c0 used by auto
    qed
  next
    case False
    then have r: "scan_near ty i (el # els) s = scan_near ty i els s"
      by (auto simp: Let_def split: sum.splits option.splits bool.splits)
    from Cons.IH [OF Cons.prems] have ih: "sound_selection ty (scan_near ty i els s)"
        "no_farther s (scan_near ty i els s)"
        "short_cut (scan_near ty i els s)
           \<or> (\<forall>el\<in>set els. eligible ty i el \<longrightarrow> covers ty (scan_near ty i els s) el)"
        "best_match (scan_near ty i els s) = best_match s
             \<and> best_strategy_used (scan_near ty i els s) = best_strategy_used s
           \<or> (best_strategy_used (scan_near ty i els s) = i
              \<and> (\<exists>el\<in>set els. best_match (scan_near ty i els s) = Some el))"
        by blast+
    have c0: "eligible ty i el \<Longrightarrow> covers ty (scan_near ty i els s) el"
    proof -
      assume e: "eligible ty i el"
      then obtain y where v: "is_visible el = Inr True" and b: "bounding_box el = Inr (Some y)"
        and lt: "\<bar>y - ty\<bar> < max_distance i"
        by (auto simp: eligible_def y_distance_def split: sum.splits option.splits)
      with False have "\<not> closer \<bar>y - ty\<bar> (best_distance s)" by blast
      then have "covers ty s el" using b
        by (auto simp: closer_def covers_def y_distance_def split: option.splits)
      then show ?thesis using ih(2) by (rule covers_mono)
    qed
    show ?thesis unfolding r using ih c0 by auto
  qed
qed


lemma all_covered_Cons:
  "all_covered pg ty i (sel # rest) r =
     ((\<forall>el\<in>set (candidates pg sel). eligible ty i el \<longrightarrow> covers ty r el)
      \<and> all_covered pg ty (Suc i) rest r)"
  by (simp add: all_covered_def All_less_Suc2)

lemma found_by_Cons:
  "found_by pg i (sel # rest) s r =
     ((best_match r = best_match s \<and> best_strategy_used r = best_strategy_used s)
      \<or> (best_strategy_used r = i \<and> (\<exists>el\<in>set (candidates pg sel). best_match r = Some el))
      \<or> (\<exists>k<length rest. best_strategy_used r = Suc i + k
            \<and> (\<exists>el\<in>set (candidates pg (rest ! k)). best_match r = Some el)))"
  by (auto simp: found_by_def Ex_less_Suc2)

lemma found_by_skip:
  "found_by pg (Suc i) rest s r \<Longrightarrow> found_by pg i (sel # rest) s r"
  by (auto simp: found_by_Cons found_by_def)

lemma found_by_step:
  assumes "(best_match s1 = best_match s \<and> best_strategy_used s1 = best_strategy_used s)
       \<or> (best_strategy_used s1 = i \<and> (\<exists>el\<in>set (candidates pg sel). best_match s1 = Some el))"
    and "found_by pg (Suc i) rest s1 r"
  shows "found_by pg i (sel # rest) s r"
  using assms by (auto simp: found_by_Cons found_by_def)

lemma find_loop_props:
  "0 < ty \<Longrightarrow> sound_selection ty s \<Longrightarrow>
   sound_selection ty (find_loop pg ty i ss s)
   \<and> no_farther s (find_loop pg ty i ss s)
   \<and> (short_cut (find_loop pg ty i ss s) \<or> confident (find_loop pg ty i ss s)
       \<or> all_covered pg ty i ss (find_loop pg ty i ss s))
   \<and> found_by pg i ss s (find_loop pg ty i ss s)"
proof (induction ss arbitrary: i s)
  case Nil
  then show ?case by (simp add: no_farther_refl all_covered_def found_by_def)
next
  case (Cons sel rest)
  show ?case
  proof (cases "\<exists>els. locator pg sel = Inr els \<and> els \<noteq> []")
    case False
    then have r: "find_loop pg ty i (sel # rest) s = find_loop pg ty (Suc i) rest s"
      by (auto split: sum.splits)
    have c: "candidates pg sel = []" using False
      by (auto simp: candidates_def split: sum.splits)
    note ih = Cons.IH [OF Cons.prems, of "Suc i"]
    show ?thesis unfolding r using ih c
      by (auto simp: all_covered_Cons intro: found_by_skip)
  next
    case True
    then obtain els where l: "locator pg sel = Inr els" and ne: "els \<noteq> []" by blast
    let ?s1 = "scan_near ty i (take 5 els) s"
    have c: "candidates pg sel = take 5 els" using l by (simp add: candidates_def)
    from scan_near_props [OF Cons.prems(2), of i "take 5 els"]
    have p1: "sound_selection ty ?s1" and p2: "no_farther s ?s1"
      and p3: "short_cut ?s1 \<or> (\<forall>el\<in>set (take 5 els). eligible ty i el \<longrightarrow> covers ty ?s1 el)"
      and p4: "(best_match ?s1 = best_match s \<and> best_strategy_used ?s1 = best_strategy_used s)
         \<or> (best_strategy_used ?s1 = i \<and> (\<exists>el\<in>set (take 5 els). best_match ?s1 = Some el))"
      by blast+
    show ?thesis
    proof (cases "confident ?s1")
      case True
      then have r: "find_loop pg ty i (sel # rest) s = ?s1"
        using l ne Cons.prems(1) by (simp add: Let_def)
      have "found_by pg i (sel # rest) s ?s1" using p4 c by (auto simp: found_by_Cons)
      then show ?thesis unfolding r using p1 p2 True by simp
    next
      case False
      then have r: "find_loop pg ty i (sel # rest) s = find_loop pg ty (Suc i) rest ?s1"
        using l ne Cons.prems(1) by (simp add: Let_def)
      let ?r = "find_loop pg ty (Suc i) rest ?s1"
      from Cons.IH [OF Cons.prems(1) p1, of "Suc i"]
      have q1: "sound_selection ty ?r" and q2: "no_farther ?s1 ?r"
        and q3: "short_cut ?r \<or> confident ?r \<or> all_covered pg ty (Suc i) rest ?r"
        and q4: "found_by pg (Suc i) rest ?s1 ?r" by blast+
      have nf: "no_farther s ?r" using p2 q2 by (rule no_farther_trans)
      have fb: "found_by pg i (sel # rest) s ?r" using p4 q4 c by (intro found_by_step) auto
      have cov: "short_cut ?r \<or> confident ?r \<or> all_covered pg ty i (sel # rest) ?r"
      proof (cases "short_cut ?s1")
        case True
        then have "short_cut ?r" using q2 by (rule short_cut_mono)
        then show ?thesis by simp
      next
        case False
        with p3 have "\<forall>el\<in>set (take 5 els). eligible ty i el \<longrightarrow> covers ty ?s1 el" by simp
        then have "\<forall>el\<in>set (candidates pg sel). eligible ty i el \<longrightarrow> covers ty ?r el"
          using c q2 covers_mono by auto
        then show ?thesis using q3 by (auto simp: all_covered_Cons)
      qed
      show ?thesis unfolding r using q1 nf cov fb by simp
    qed
  qed
qed

lemma sound_no_selection: "sound_selection ty no_selection"
  by (simp add: sound_selection_def no_selection_def)

lemma find_field_props:
  assumes "0 < ty"
  shows "sound_selection ty (find_field pg tgt sel ty)"
    and "short_cut (find_field pg tgt sel ty) \<or> confident (find_field pg tgt sel ty)
         \<or> all_covered pg ty 1 (type_strategies tgt sel ty) (find_field pg tgt sel ty)"
    and "found_by pg 1 (type_strategies tgt sel ty) no_selection (find_field pg tgt sel ty)"
  using find_loop_props [OF assms sound_no_selection, of pg 1 "type_strategies tgt sel ty"]
  unfolding find_field_def by blast+

lemma find_field_Some:
  assumes ty: "0 < ty" and b: "best_match (find_field pg tgt sel ty) = Some el"
  shows "eligible ty (best_strategy_used (find_field pg tgt sel ty)) el"
    and "best_distance (find_field pg tgt sel ty) = y_distance ty el"
    and "\<exists>k<length (type_strategies tgt sel ty).
           best_strategy_used (find_field pg tgt sel ty) = Suc k
           \<and> el \<in> set (candidates pg (type_strategies tgt sel ty ! k))"
proof -
  let ?r = "find_field pg tgt sel ty"
  from find_field_props(1) [OF ty, of pg tgt sel] b
  show "eligible ty (best_strategy_used ?r) el" and "best_distance ?r = y_distance ty el"
    by (simp_all add: sound_selection_def)
  from find_field_props(3) [OF ty, of pg tgt sel] b
  show "\<exists>k<length (type_strategies tgt sel ty).
           best_strategy_used ?r = Suc k
           \<and> el \<in> set (candidates pg (type_strategies tgt sel ty ! k))"
    by (auto simp: found_by_def no_selection_def)
qed

lemma find_field_None:
  assumes ty: "0 < ty" and b: "best_match (find_field pg tgt sel ty) = None"
    and k: "k < length (type_strategies tgt sel ty)"
    and el: "el \<in> set (candidates pg (type_strategies tgt sel ty ! k))"
  shows "\<not> eligible ty (Suc k) el"
proof
  assume e: "eligible ty (Suc k) el"
  let ?r = "find_field pg tgt sel ty"
  have d: "best_distance ?r = None"
    using find_field_props(1) [OF ty, of pg tgt sel] b by (simp add: sound_selection_def)
  then have "\<not> short_cut ?r" and "\<not> confident ?r"
    by (simp_all add: short_cut_def confident_def)
  with find_field_props(2) [OF ty, of pg tgt sel]
  have "all_covered pg ty 1 (type_strategies tgt sel ty) ?r" by blast
  then have "covers ty ?r el" using k el e by (auto simp: all_covered_def)
  then show False using d by (simp add: covers_def)
qed

lemma max_distance_bounds: "80 \<le> max_distance i" "max_distance i \<le> 150"
  by (simp_all add: max_distance_def)

lemma last_strategy: "''[contenteditable='' @ quoted ''true'' @ '']'' \<in> set (type_strategies tgt sel ty)"
  by (simp add: type_strategies_def)

section \<open>Claims about the orchestrator\<close>

text \<open>
  C9, as amended. One UIState is appended per step whose action is executed, and a run that
  returns ends in one of the four terminal statuses. The number of recorded states equals
  \<open>total_steps\<close> for \<open>failed_too_many_errors\<close> and (with a non-negative budget) for
  \<open>max_steps_reached\<close>; it is \<open>total_steps - 1\<close> for \<open>failed_infinite_loop\<close>, where the
  loop is left before the state of that step is recorded; for \<open>completed\<close> it is
  \<open>total_steps\<close> or \<open>total_steps - 1\<close>.
\<close>

theorem states_recorded_per_status:
  assumes "execute_task te env t task url_arg name max_steps = Inr w"
  shows "completion_status w \<in> {''completed'', ''failed_infinite_loop'',
            ''failed_too_many_errors'', ''max_steps_reached''}
     \<and> (completion_status w = ''failed_too_many_errors'' \<longrightarrow> int (length (states w)) = total_steps w)
     \<and> (completion_status w = ''max_steps_reached'' \<and> 0 \<le> max_steps
           \<longrightarrow> int (length (states w)) = total_steps w)
     \<and> (completion_status w = ''failed_infinite_loop'' \<longrightarrow> int (length (states w)) = total_steps w - 1)
     \<and> (completion_status w = ''completed''
           \<longrightarrow> int (length (states w)) = total_steps w \<or> int (length (states w)) = total_steps w - 1)"
proof -
  let ?init = "initial_loop_state task url_arg name t"
  from assms obtain st where
    run: "run_steps env task (initial_page_url te) (nat max_steps) 1 ?init = Inr st"
    and w: "w = finish max_steps (workflow st)"
    by (auto simp: execute_task_def split: sum.splits)
  from run_steps_shape [OF initial_loop_inv run]
  show ?thesis
  proof
    assume b: "break_shape st"
    then have "completion_status (workflow st) \<noteq> ''in_progress''"
      by (auto simp: break_shape_def Let_def)
    then have "w = workflow st" using w by (simp add: finish_def)
    then show ?thesis using b by (auto simp: break_shape_def Let_def)
  next
    assume i: "loop_inv (1 + nat max_steps) st"
    then have "w = (workflow st) \<lparr> completion_status := ''max_steps_reached'', total_steps := max_steps \<rparr>"
      using w by (simp add: finish_def loop_inv_def)
    moreover have "length (states (workflow st)) = nat max_steps"
      using i by (simp add: loop_inv_def)
    ultimately show ?thesis by simp
  qed
qed

theorem states_recorded_per_status_witness:
  "run_of failing_clicks_plain = Inr (projr (run_of failing_clicks_plain))
   \<and> completion_status (projr (run_of failing_clicks_plain)) = ''failed_too_many_errors''
   \<and> int (length (states (projr (run_of failing_clicks_plain)))) = total_steps (projr (run_of failing_clicks_plain))"
proof -
  have "isl (run_of failing_clicks_plain) = False" by code_simp
  then have h: "run_of failing_clicks_plain = Inr (projr (run_of failing_clicks_plain))" by (rule isr_run)
  have s: "completion_status (projr (run_of failing_clicks_plain)) = ''failed_too_many_errors''" by code_simp
  from states_recorded_per_status [OF h [unfolded run_of_def], folded run_of_def] s h show ?thesis by simp
qed

text \<open>
  The claim as written fails: when the planner answers with the same successful key press at every step, the run
  ends at step 4 with \<open>failed_infinite_loop\<close>, \<open>total_steps = 4\<close> and three recorded
  states.
\<close>

theorem states_recorded_counterexample:
  "isl (run_of always_press) = False
   \<and> completion_status (projr (run_of always_press)) = ''failed_infinite_loop''
   \<and> total_steps (projr (run_of always_press)) = 4
   \<and> length (states (projr (run_of always_press))) = 3"
  by code_simp




text \<open>
  C1, as amended. The repeat counter counts the plans whose signature equals that of the
  step before; the loop is left with \<open>failed_infinite_loop\<close> when the counter reaches 3,
  that is at the fourth of four consecutive plans with identical signatures, whether the
  actions succeed or not. If steps \<open>k+1\<close> to \<open>k+4\<close> are planned with one signature, the
  loop runs through steps \<open>k+1\<close> to \<open>k+3\<close>, and step \<open>k+4\<close> (within the budget) gets as far
  as the repetition guard, then the run ends at step \<open>k+4\<close> with that status. A plan whose
  signature differs from the previous one sets the counter to 0.
\<close>

theorem four_identical_signatures_stop_the_loop:
  assumes login: "login_gate te = Inr ()"
    and reach: "state_after env task (initial_page_url te) (k + 3) 1
                  (initial_loop_state task url_arg name t) = Some st"
    and sigs: "\<forall>j<4. action_signature (planned (env (Suc k + j))) = s"
    and shot: "capture_screenshot (env (k + 4)) = Inr screenshot"
    and early: "early_completion (env (k + 4)) task (initial_page_url te) st = Inr False"
    and budget: "int k + 4 \<le> max_steps"
  shows "(\<exists>w. execute_task te env t task url_arg name max_steps = Inr w
            \<and> completion_status w = ''failed_infinite_loop'' \<and> total_steps w = int k + 4
            \<and> length (states w) = k + 3)
         \<and> (\<forall>e task' iu step st0 st1.
              loop_body e task' iu step st0 = Continue st1 \<and>
              action_signature (planned e) \<noteq> last_action_signature st0
              \<longrightarrow> same_action_count st1 = 0)"
proof
  let ?iu = "initial_page_url te"
  let ?init = "initial_loop_state task url_arg name t"
  from state_after_add [OF reach]
  obtain st0 where r0: "state_after env task ?iu k 1 ?init = Some st0"
    and r3: "state_after env task ?iu 3 (1 + k) st0 = Some st" by blast
  have inv0: "loop_inv (1 + k) st0" using initial_loop_inv r0 by (rule state_after_inv)
  have inv3: "loop_inv (1 + (k + 3)) st" using initial_loop_inv reach by (rule state_after_inv)
  have c0: "0 \<le> same_action_count st0" using inv0 by (simp add: loop_inv_def)
  have s3: "\<forall>j<Suc 2. action_signature (planned (env (1 + k + j))) = s"
    using sigs by simp
  have r3': "state_after env task ?iu (Suc 2) (1 + k) st0 = Some st"
    using r3 by (simp add: numeral_3_eq_3)
  from signature_run [OF c0 s3 r3']
  have last: "last_action_signature st = s" and cnt: "2 \<le> same_action_count st" by simp_all
  have s4: "action_signature (planned (env (k + 4))) = s"
    using sigs by (metis add_Suc add_Suc_right lessI numeral_3_eq_3 numeral_Bit0 add.commute
        Suc_less_eq less_Suc_eq add_2_eq_Suc' one_add_one plus_1_eq_Suc)
  let ?st' = "set_status ''failed_infinite_loop'' (k + 4)
               (st \<lparr> same_action_count := same_action_count st + 1 \<rparr>)"
  have body: "loop_body (env (k + 4)) task ?iu (k + 4) st = Break ?st'"
    using lb_guard [OF shot early] rg_trigger [of "env (k + 4)" st "k + 4" screenshot] s4 last cnt
    by simp
  have "nat max_steps = (k + 3) + Suc (nat max_steps - (k + 4))" using budget by simp
  then have "run_steps env task ?iu (nat max_steps) 1 ?init
      = run_steps env task ?iu (Suc (nat max_steps - (k + 4))) (1 + (k + 3)) st"
    using run_steps_state_after [OF reach] by metis
  also have "\<dots> = Inr ?st'" using body by (simp add: add.commute add.left_commute)
  finally have run: "run_steps env task ?iu (nat max_steps) 1 ?init = Inr ?st'" .
  have len: "Suc (length (states (workflow st))) = 1 + (k + 3)" using inv3 by (simp add: loop_inv_def)
  have "execute_task te env t task url_arg name max_steps = Inr (workflow ?st')"
    using login run by (simp add: execute_task_def finish_def set_status_def)
  moreover have "completion_status (workflow ?st') = ''failed_infinite_loop''"
    and "total_steps (workflow ?st') = int k + 4"
    and "length (states (workflow ?st')) = k + 3"
    using len by (simp_all add: set_status_def)
  ultimately show "\<exists>w. execute_task te env t task url_arg name max_steps = Inr w
            \<and> completion_status w = ''failed_infinite_loop'' \<and> total_steps w = int k + 4
            \<and> length (states w) = k + 3" by blast
next
  show "\<forall>e task' iu step st0 st1.
              loop_body e task' iu step st0 = Continue st1 \<and>
              action_signature (planned e) \<noteq> last_action_signature st0
              \<longrightarrow> same_action_count st1 = 0"
  proof (intro allI impI)
    fix e task' iu step st0 st1
    assume h: "loop_body e task' iu step st0 = Continue st1 \<and>
              action_signature (planned e) \<noteq> last_action_signature st0"
    then have g: "repetition_guard e step (projr (capture_screenshot e)) st0 = Continue st1"
      using lb_Continue by blast
    show "same_action_count st1 = 0" using rg_Continue(4) [OF g] h by simp
  qed
qed


theorem four_identical_signatures_stop_the_loop_witness:
  "login_gate no_login = Inr ()
   \<and> reached always_press 3 = Some (the (reached always_press 3))
   \<and> action_signature (planned (always_press 1)) = ''press_key||Tab''
   \<and> capture_screenshot (always_press 4) = Inr ''screenshots/step.png''
   \<and> early_completion (always_press 4) the_task the_url (the (reached always_press 3)) = Inr False
   \<and> (\<exists>w. run_of always_press = Inr w
          \<and> completion_status w = ''failed_infinite_loop'' \<and> total_steps w = 4
          \<and> length (states w) = 3)"
proof -
  let ?s3 = "the (reached always_press 3)"
  have l: "login_gate no_login = Inr ()" by code_simp
  have "reached always_press 3 \<noteq> None" by code_simp
  then have r: "reached always_press 3 = Some ?s3" by (rule is_Some_eq)
  have sg: "action_signature (planned (always_press 1)) = ''press_key||Tab''" by code_simp
  have sigs: "\<forall>j<4. action_signature (planned (always_press (Suc 0 + j))) = ''press_key||Tab''"
    using sg by (simp add: always_press_def)
  have sh: "capture_screenshot (always_press 4) = Inr ''screenshots/step.png''" by code_simp
  have ea: "early_completion (always_press 4) the_task the_url ?s3 = Inr False" by code_simp
  have iu: "initial_page_url no_login = the_url" by (simp add: no_login_def the_url_def)
  have r': "state_after always_press the_task (initial_page_url no_login) (0 + 3) 1
      (initial_loop_state the_task the_url ''github'' new_tracker) = Some ?s3"
    using r by (simp add: reached_def first_state_def iu)
  have sh': "capture_screenshot (always_press (0 + 4)) = Inr ''screenshots/step.png''"
    using sh by simp
  have ea': "early_completion (always_press (0 + 4)) the_task (initial_page_url no_login) ?s3 = Inr False"
    using ea by (simp add: iu)
  have bd: "int 0 + 4 \<le> 20" by simp
  from four_identical_signatures_stop_the_loop [OF l r' sigs sh' ea' bd]
  have "\<exists>w. run_of always_press = Inr w
          \<and> completion_status w = ''failed_infinite_loop'' \<and> total_steps w = 4
          \<and> length (states w) = 3"
    by (simp add: run_of_def)
  with l r sg sh ea show ?thesis by blast
qed

text \<open>
  The claim as written fails: three consecutive plans with identical signatures leave the
  counter at 2; the loop goes on to step 4, where the run ends as \<open>completed\<close>.
\<close>

theorem three_identical_signatures_counterexample:
  "action_signature (planned (press_thrice_then_complete 1))
      = action_signature (planned (press_thrice_then_complete 2))
   \<and> action_signature (planned (press_thrice_then_complete 2))
      = action_signature (planned (press_thrice_then_complete 3))
   \<and> reached press_thrice_then_complete 3 \<noteq> None
   \<and> same_action_count (the (reached press_thrice_then_complete 3)) = 2
   \<and> isl (run_of press_thrice_then_complete) = False
   \<and> completion_status (projr (run_of press_thrice_then_complete)) = ''completed''
   \<and> total_steps (projr (run_of press_thrice_then_complete)) = 4"
  by code_simp

section \<open>Claims about the executor\<close>

text \<open>
  C10. Through any sequence of executor calls on a fresh tracker (resets included), the
  attempt count stored for a key is never more than 1, and a key that is not filled has
  attempt count 0: the test \<open>get_attempts \<ge> 2\<close>, made only after \<open>is_filled\<close> has
  answered no, never succeeds.
\<close>

theorem attempts_never_exceed_one:
  "(field_attempts (execute_actions new_tracker steps) k = None
      \<or> field_attempts (execute_actions new_tracker steps) k = Some 1)
   \<and> get_attempts (execute_actions new_tracker steps) f p y \<le> 1
   \<and> (is_filled (execute_actions new_tracker steps) f p y
      \<or> get_attempts (execute_actions new_tracker steps) f p y = 0)"
  using attempts_match_execute_actions [OF attempts_match_new, of steps]
  by (auto dest: attempts_match_bound attempts_match_stored attempts_match_unfilled)

theorem attempts_never_exceed_one_witness:
  "field_attempts (execute_actions new_tracker [(ok_driver, type_plan), (ok_driver, type_plan)])
      (create_field_key ''Repository name'' ''name'' 310) = Some 1
   \<and> get_attempts (execute_actions new_tracker [(ok_driver, type_plan), (ok_driver, type_plan)])
      ''Repository name'' ''name'' 310 \<le> 1
   \<and> is_filled (execute_actions new_tracker [(ok_driver, type_plan), (ok_driver, type_plan)])
      ''Repository name'' ''name'' 310"
proof -
  let ?t = "execute_actions new_tracker [(ok_driver, type_plan), (ok_driver, type_plan)]"
  have f: "is_filled ?t ''Repository name'' ''name'' 310" by code_simp
  then have n: "field_attempts ?t (create_field_key ''Repository name'' ''name'' 310) \<noteq> None"
    using attempts_match_execute_actions [OF attempts_match_new,
        of "[(ok_driver, type_plan), (ok_driver, type_plan)]"]
    by (simp add: attempts_match_def is_filled_def)
  from attempts_never_exceed_one [of "[(ok_driver, type_plan), (ok_driver, type_plan)]"
      "create_field_key ''Repository name'' ''name'' 310" "''Repository name''" "''name''" 310] f n
  show ?thesis by blast
qed

text \<open>
  What holds of \<open>execute_action\<close> for a plan whose target is a string or absent: an
  exception leaving the body of its \<open>try\<close> becomes the failure
  \<open>(False, "Error: " + str(e))\<close>, which is what happens when the click resolver, either
  typing resolver or the timed wait raises; an exception of the key press, or of the wait
  after it, becomes \<open>(False, "Key press error: " + str(e))\<close>. In each case the tracker
  is left as it was.
\<close>

lemma execute_action_catches_delegated:
  fixes d :: driver and p :: action_plan and t :: form_field_tracker and e :: error
  assumes raw: "target_get p = Some raw"
  defines "tgt \<equiv> strip raw"
    and "val \<equiv> get_or (plan_value p) ''''"
    and "purpose \<equiv> get_or (field_purpose p) ''other''"
    and "y \<equiv> target_y_position p"
  shows
   "(execute_action_body d p tgt t = Inl e
          \<longrightarrow> execute_action d p t = Inr ((False, ''Error: '' @ str_of_error e), t))
    \<and> (action p = ''press_key''
          \<and> keyboard_press d (if tgt \<noteq> [] then tgt else get_or (plan_value p) ''Enter'') = Inl e
          \<longrightarrow> execute_action d p t = Inr ((False, ''Key press error: '' @ str_of_error e), t))
    \<and> (action p = ''press_key''
          \<and> keyboard_press d (if tgt \<noteq> [] then tgt else get_or (plan_value p) ''Enter'') = Inr ()
          \<and> wait_for_timeout d 800 = Inl e
          \<longrightarrow> execute_action d p t = Inr ((False, ''Key press error: '' @ str_of_error e), t))
    \<and> ((action p = ''click'' \<or> action p = ''navigate'')
          \<and> smart_click_op d tgt (get_or (selector_type p) ''text'') = Inl e
          \<longrightarrow> execute_action d p t = Inr ((False, ''Error: '' @ str_of_error e), t))
    \<and> (action p = ''type_contenteditable''
          \<and> is_filled t tgt purpose y = False \<and> get_attempts t tgt purpose y < 2
          \<and> type_contenteditable_op d tgt val y = Inl e
          \<longrightarrow> execute_action d p t = Inr ((False, ''Error: '' @ str_of_error e), t))
    \<and> (action p = ''type''
          \<and> is_filled t tgt purpose y = False \<and> get_attempts t tgt purpose y < 2
          \<and> smart_type_op d tgt val (get_or (selector_type p) ''placeholder'') y = Inl e
          \<longrightarrow> execute_action d p t = Inr ((False, ''Error: '' @ str_of_error e), t))
    \<and> (action p = ''wait'' \<and> wait_for_timeout d (wait_after p) = Inl e
          \<longrightarrow> execute_action d p t = Inr ((False, ''Error: '' @ str_of_error e), t))"
proof (intro conjI impI)
  show "execute_action d p t = Inr ((False, ''Error: '' @ str_of_error e), t)"
    if "execute_action_body d p tgt t = Inl e"
    using that raw unfolding tgt_def by (simp add: execute_action_def)
  show "execute_action d p t = Inr ((False, ''Key press error: '' @ str_of_error e), t)"
    if "action p = ''press_key''
          \<and> keyboard_press d (if tgt \<noteq> [] then tgt else get_or (plan_value p) ''Enter'') = Inl e"
    using that raw unfolding tgt_def
    by (simp add: execute_action_def execute_action_body_def press_key_action_def Let_def)
  show "execute_action d p t = Inr ((False, ''Key press error: '' @ str_of_error e), t)"
    if "action p = ''press_key''
          \<and> keyboard_press d (if tgt \<noteq> [] then tgt else get_or (plan_value p) ''Enter'') = Inr ()
          \<and> wait_for_timeout d 800 = Inl e"
    using that raw unfolding tgt_def
    by (simp add: execute_action_def execute_action_body_def press_key_action_def Let_def)
  show "execute_action d p t = Inr ((False, ''Error: '' @ str_of_error e), t)"
    if "(action p = ''click'' \<or> action p = ''navigate'')
          \<and> smart_click_op d tgt (get_or (selector_type p) ''text'') = Inl e"
    using that raw unfolding tgt_def
    by (auto simp: execute_action_def execute_action_body_def click_action_def Let_def)
  show "execute_action d p t = Inr ((False, ''Error: '' @ str_of_error e), t)"
    if "action p = ''type_contenteditable''
          \<and> is_filled t tgt purpose y = False \<and> get_attempts t tgt purpose y < 2
          \<and> type_contenteditable_op d tgt val y = Inl e"
    using that raw unfolding tgt_def val_def purpose_def y_def
    by (simp add: execute_action_def execute_action_body_def type_contenteditable_action_def Let_def)
  show "execute_action d p t = Inr ((False, ''Error: '' @ str_of_error e), t)"
    if "action p = ''type''
          \<and> is_filled t tgt purpose y = False \<and> get_attempts t tgt purpose y < 2
          \<and> smart_type_op d tgt val (get_or (selector_type p) ''placeholder'') y = Inl e"
    using that raw unfolding tgt_def val_def purpose_def y_def
    by (simp add: execute_action_def execute_action_body_def type_action_def Let_def)
  show "execute_action d p t = Inr ((False, ''Error: '' @ str_of_error e), t)"
    if "action p = ''wait'' \<and> wait_for_timeout d (wait_after p) = Inl e"
    using that raw unfolding tgt_def
    by (simp add: execute_action_def execute_action_body_def Let_def)
qed

text \<open>
  C8. The claim is not met by the code. The target is stripped before the \<open>try\<close> of
  \<open>execute_action\<close>, so for a plan with \<open>"target": null\<close> the call raises instead of
  returning a pair, whatever the driver does; the orchestrator calls \<open>execute_action\<close>
  outside any \<open>try\<close>, so the same exception ends \<open>execute_task\<close>.
\<close>

theorem execute_action_null_target_raises:
  "execute_action d null_target_plan t = Inl (none_has_no ''strip'')
   \<and> run_of null_target_always = Inl (none_has_no ''strip'')"
proof
  show "execute_action d null_target_plan t = Inl (none_has_no ''strip'')"
    by (simp add: execute_action_def target_get_def null_target_plan_def wait_plan_def)
  show "run_of null_target_always = Inl (none_has_no ''strip'')"
    by code_simp
qed

section \<open>Claims about the click resolver\<close>







section \<open>Claims about the typing resolver\<close>

text \<open>
  C6, as amended. Given a target position above 0, the typing resolver looks at the first
  five matches of each strategy and at \<open>|elementY - targetY|\<close> of every visible one with a
  bounding box. The element it chooses is among the first five matches of the strategy
  recorded as used, visible, and nearer than the threshold of that strategy (80 pixels for
  strategies 1 to 6 of the list, 150 for the later ones), and the recorded distance is its
  distance. It is not always the nearest: the scan of a strategy stops at the first
  accepted element nearer than 20 pixels, and the search stops after a strategy when the
  choice comes from strategies 1 to 6 and is nearer than 50 pixels; if neither happened,
  no eligible match of any strategy is nearer than the choice. Nothing is chosen only if
  no match is eligible. In particular, on a page whose matches are two fields at 100 and
  500, one of the strategies finding the second, a request with target position 510 is
  resolved to the field at 500.
\<close>

theorem position_scan_choice:
  "(0 < target_y \<and> best_match (find_field pg tgt sel target_y) = Some el
      \<longrightarrow> eligible target_y (best_strategy_used (find_field pg tgt sel target_y)) el
        \<and> best_distance (find_field pg tgt sel target_y) = y_distance target_y el
        \<and> (\<exists>k<length (type_strategies tgt sel target_y).
              best_strategy_used (find_field pg tgt sel target_y) = Suc k
              \<and> el \<in> set (candidates pg (type_strategies tgt sel target_y ! k)))
        \<and> (short_cut (find_field pg tgt sel target_y)
            \<or> confident (find_field pg tgt sel target_y)
            \<or> all_covered pg target_y 1 (type_strategies tgt sel target_y)
                 (find_field pg tgt sel target_y)))
   \<and> (0 < target_y \<and> best_match (find_field pg tgt sel target_y) = None
        \<and> k < length (type_strategies tgt sel target_y)
        \<and> el' \<in> set (candidates pg (type_strategies tgt sel target_y ! k))
      \<longrightarrow> \<not> eligible target_y (Suc k) el')
   \<and> (is_visible f100 = Inr True \<and> bounding_box f100 = Inr (Some 100)
        \<and> is_visible f500 = Inr True \<and> bounding_box f500 = Inr (Some 500)
        \<and> (\<forall>s. set (candidates pg s) \<subseteq> {f100, f500})
        \<and> (\<exists>s\<in>set (type_strategies tgt sel 510). f500 \<in> set (candidates pg s))
      \<longrightarrow> best_match (find_field pg tgt sel 510) = Some f500
        \<and> snd (smart_type pg tgt val sel 510) = Some f500)"
proof (intro conjI impI)
  assume h: "0 < target_y \<and> best_match (find_field pg tgt sel target_y) = Some el"
  then have ty: "0 < target_y" and b: "best_match (find_field pg tgt sel target_y) = Some el"
    by simp_all
  show "eligible target_y (best_strategy_used (find_field pg tgt sel target_y)) el"
    by (rule find_field_Some(1) [OF ty b])
  show "best_distance (find_field pg tgt sel target_y) = y_distance target_y el"
    by (rule find_field_Some(2) [OF ty b])
  show "\<exists>k<length (type_strategies tgt sel target_y).
              best_strategy_used (find_field pg tgt sel target_y) = Suc k
              \<and> el \<in> set (candidates pg (type_strategies tgt sel target_y ! k))"
    by (rule find_field_Some(3) [OF ty b])
  show "short_cut (find_field pg tgt sel target_y)
            \<or> confident (find_field pg tgt sel target_y)
            \<or> all_covered pg target_y 1 (type_strategies tgt sel target_y)
                 (find_field pg tgt sel target_y)"
    by (rule find_field_props(2) [OF ty])
next
  assume "0 < target_y \<and> best_match (find_field pg tgt sel target_y) = None
        \<and> k < length (type_strategies tgt sel target_y)
        \<and> el' \<in> set (candidates pg (type_strategies tgt sel target_y ! k))"
  then show "\<not> eligible target_y (Suc k) el'"
    using find_field_None by blast
next
  assume h: "is_visible f100 = Inr True \<and> bounding_box f100 = Inr (Some 100)
        \<and> is_visible f500 = Inr True \<and> bounding_box f500 = Inr (Some 500)
        \<and> (\<forall>s. set (candidates pg s) \<subseteq> {f100, f500})
        \<and> (\<exists>s\<in>set (type_strategies tgt sel 510). f500 \<in> set (candidates pg s))"
  let ?r = "find_field pg tgt sel 510"
  have ty: "(0::int) < 510" by simp
  from h obtain s where s: "s \<in> set (type_strategies tgt sel 510)"
    and m: "f500 \<in> set (candidates pg s)" by blast
  from s obtain k where k: "k < length (type_strategies tgt sel 510)"
    and sk: "type_strategies tgt sel 510 ! k = s" by (auto simp: in_set_conv_nth)
  have e500: "eligible 510 (Suc k) f500"
    using h max_distance_bounds(1) [of "Suc k"] by (simp add: eligible_def y_distance_def)
  have "best_match ?r \<noteq> None"
  proof
    assume "best_match ?r = None"
    from find_field_None [OF ty this k] m sk e500 show False by simp
  qed
  then obtain el where b: "best_match ?r = Some el" by blast
  from find_field_Some(3) [OF ty b] h have "el = f100 \<or> el = f500" by blast
  moreover have "el \<noteq> f100"
  proof
    assume "el = f100"
    then have "eligible 510 (best_strategy_used ?r) f100"
      using find_field_Some(1) [OF ty b] by simp
    then show False
      using h max_distance_bounds(2) [of "best_strategy_used ?r"]
      by (simp add: eligible_def y_distance_def)
  qed
  ultimately have r: "best_match ?r = Some f500" using b by simp
  then show "best_match (find_field pg tgt sel 510) = Some f500" .
  show "snd (smart_type pg tgt val sel 510) = Some f500"
    using r by (simp add: smart_type_def Let_def)
qed

theorem position_scan_choice_witness:
  "best_match (find_field two_field_page ''title'' ''name'' 510) = Some (field_at 500)
   \<and> snd (smart_type two_field_page ''title'' ''My title'' ''name'' 510) = Some (field_at 500)
   \<and> eligible 510 (best_strategy_used (find_field two_field_page ''title'' ''name'' 510)) (field_at 500)
   \<and> best_distance (find_field two_field_page ''title'' ''name'' 510) = Some 10
   \<and> best_match (find_field far_field_page ''title'' ''name'' 510) = None
   \<and> field_at 100 \<in> set (candidates far_field_page (type_strategies ''title'' ''name'' 510 ! 0))
   \<and> eligible 510 (Suc 0) (field_at 100) = False"
proof -
  let ?name = "''[name='' @ quoted ''title'' @ '']''"
  have v1: "is_visible (field_at 100) = Inr True" "bounding_box (field_at 100) = Inr (Some 100)"
    and v5: "is_visible (field_at 500) = Inr True" "bounding_box (field_at 500) = Inr (Some 500)"
    by (simp_all add: field_at_def plain_element_def)
  have all: "\<forall>s. set (candidates two_field_page s) \<subseteq> {field_at 100, field_at 500}"
    by (auto simp: candidates_def two_field_page_def page_with_def)
  have "field_at 500 \<in> set (candidates two_field_page (''[contenteditable='' @ quoted ''true'' @ '']''))"
    by (simp add: candidates_def two_field_page_def page_with_def)
  then have some: "\<exists>s\<in>set (type_strategies ''title'' ''name'' 510).
      field_at 500 \<in> set (candidates two_field_page s)"
    using last_strategy by blast
  note two = position_scan_choice [where pg = two_field_page and tgt = "''title''"
      and sel = "''name''" and target_y = 510 and el = "field_at 500" and ?f100.0 = "field_at 100"
      and ?f500.0 = "field_at 500" and val = "''My title''" and k = 0 and el' = "field_at 100"]
  note far = position_scan_choice [where pg = far_field_page and tgt = "''title''"
      and sel = "''name''" and target_y = 510 and el = "field_at 500" and ?f100.0 = "field_at 100"
      and ?f500.0 = "field_at 500" and val = "''My title''" and k = 0 and el' = "field_at 100"]
  have r: "best_match (find_field two_field_page ''title'' ''name'' 510) = Some (field_at 500)
      \<and> snd (smart_type two_field_page ''title'' ''My title'' ''name'' 510) = Some (field_at 500)"
    by (rule two [THEN conjunct2, THEN conjunct2, rule_format])
       (intro conjI v1 v5 all some)
  then have b: "best_match (find_field two_field_page ''title'' ''name'' 510) = Some (field_at 500)"
    by simp
  have p: "(0::int) < 510" by simp
  from two [THEN conjunct1, rule_format, OF conjI [OF p b]]
  have e: "eligible 510 (best_strategy_used (find_field two_field_page ''title'' ''name'' 510)) (field_at 500)"
    and d: "best_distance (find_field two_field_page ''title'' ''name'' 510) = y_distance 510 (field_at 500)"
    by simp_all
  have d': "best_distance (find_field two_field_page ''title'' ''name'' 510) = Some 10"
    using d by (simp add: y_distance_def v5)
  have "map_option bounding_box (best_match (find_field far_field_page ''title'' ''name'' 510)) = None"
    by code_simp
  then have n: "best_match (find_field far_field_page ''title'' ''name'' 510) = None" by simp
  have s0: "type_strategies ''title'' ''name'' 510 ! 0 = ?name" by code_simp
  have k0: "0 < length (type_strategies ''title'' ''name'' 510)" by code_simp
  have m: "field_at 100 \<in> set (candidates far_field_page (type_strategies ''title'' ''name'' 510 ! 0))"
    unfolding s0 by (simp add: candidates_def far_field_page_def page_with_def)
  have "\<not> eligible 510 (Suc 0) (field_at 100)"
    by (rule far [THEN conjunct2, THEN conjunct1, rule_format])
       (intro conjI p n k0 m)
  then show ?thesis using r e d' n m by simp
qed

text \<open>
  The claim as written fails: with two fields of one name at 495 and 510 and target
  position 510, both among the first five matches of the first strategy and both under
  its threshold, the resolver takes the field at 495, 15 pixels away, and types into it,
  although the field at 510 is at distance 0.
\<close>

theorem position_scan_counterexample:
  "map bounding_box (candidates near_fields_page (''[name='' @ quoted ''title'' @ '']''))
      = [Inr (Some 495), Inr (Some 510)]
   \<and> best_strategy_used (find_field near_fields_page ''title'' ''name'' 510) = 1
   \<and> eligible 510 1 (field_at 510)
   \<and> y_distance 510 (field_at 510) = Some 0
   \<and> best_distance (find_field near_fields_page ''title'' ''name'' 510) = Some 15
   \<and> map_option bounding_box (snd (smart_type near_fields_page ''title'' ''My title'' ''name'' 510))
        = Some (Inr (Some 495))
   \<and> fst (fst (smart_type near_fields_page ''title'' ''My title'' ''name'' 510))"
  by code_simp

end
